theory Spec2Isabelle
  imports
    Main
    "HOL-Library.Char_ord"
    "HOL-Library.List_Lexorder"
    "HOL-Library.Product_Lexorder"
    "HOL-Library.Multiset"
begin

section \<open>Data model of app.py\<close>

text \<open>
  Python strings are \<^typ>\<open>string\<close>; their comparison (\<^verbatim>\<open><\<close>, \<^verbatim>\<open>sorted\<close>) is the
  lexicographic order on code points, which is the order \<^theory_text>\<open>List_Lexorder\<close> gives
  to lists of characters ordered by \<^theory_text>\<open>Char_ord\<close>.

  A Python \<^verbatim>\<open>dict\<close> keeps its keys in insertion order and never holds a key twice. It
  is an association list here, in iteration order; \<open>distinct (map fst d)\<close> is the
  invariant of the representation.
\<close>

type_synonym tally = "(string \<times> int) list"

text \<open>The keys of \<^verbatim>\<open>riasec_scores\<close>, in the order the source writes them.\<close>

definition RIASEC :: "string list" where
  "RIASEC = [''R'', ''I'', ''A'', ''S'', ''E'', ''C'']"

text \<open>A RIASEC tally: a dict whose keys are exactly the six letters, in any order.\<close>

definition riasec_tally :: "tally \<Rightarrow> bool" where
  "riasec_tally t \<longleftrightarrow> distinct (map fst t) \<and> set (map fst t) = set RIASEC"

datatype py_error = KeyError | TypeError

text \<open>
  A chosen label is whatever JSON value \<^verbatim>\<open>save_answer\<close> took from the request body
  (\<^verbatim>\<open>data.get('answer')\<close>) and stored under \<^verbatim>\<open>str(qnum)\<close>; the session carries
  it as JSON. A JSON array is a Python \<^verbatim>\<open>list\<close> and a JSON object a \<^verbatim>\<open>dict\<close>:
  neither can be hashed. Numbers are written as integers; a number is hashable and never
  equal to a string, which is all the scoring asks of a label.
\<close>

datatype json =
  JNull
| JBool bool
| JNumber int
| JString string
| JArray "json list"
| JObject "(string \<times> json) list"

fun hashable :: "json \<Rightarrow> bool" where
  "hashable (JArray xs) = False"
| "hashable (JObject kvs) = False"
| "hashable v = True"

text \<open>
  \<^verbatim>\<open>k in d\<close> for a dict with string keys and a JSON value \<^verbatim>\<open>k\<close>: hashing a list or
  a dict raises \<^verbatim>\<open>TypeError\<close>, whatever the dict holds; a string is looked up; any other
  value equals no key.
\<close>

fun contains :: "(string \<times> 'v) list \<Rightarrow> json \<Rightarrow> py_error + bool" where
  "contains d (JArray xs) = Inl TypeError"
| "contains d (JObject kvs) = Inl TypeError"
| "contains d (JString s) = Inr (s \<in> set (map fst d))"
| "contains d v = Inr False"

text \<open>\<^verbatim>\<open>d[k]\<close>: the value at a key, or \<^verbatim>\<open>KeyError\<close>.\<close>

definition getitem :: "('k \<times> 'v) list \<Rightarrow> 'k \<Rightarrow> py_error + 'v" where
  "getitem d k = (case map_of d k of None \<Rightarrow> Inl KeyError | Some v \<Rightarrow> Inr v)"

text \<open>\<^verbatim>\<open>d[k]\<close> for a dict with string keys and a JSON value \<^verbatim>\<open>k\<close>.\<close>

fun getitem_json :: "(string \<times> 'v) list \<Rightarrow> json \<Rightarrow> py_error + 'v" where
  "getitem_json d (JArray xs) = Inl TypeError"
| "getitem_json d (JObject kvs) = Inl TypeError"
| "getitem_json d (JString s) = getitem d s"
| "getitem_json d v = Inl KeyError"

text \<open>\<^verbatim>\<open>d[k] = v\<close>: a key of the dict keeps its place, a new key goes to the end.\<close>

fun setitem :: "('k \<times> 'v) list \<Rightarrow> 'k \<Rightarrow> 'v \<Rightarrow> ('k \<times> 'v) list" where
  "setitem [] k v = [(k, v)]"
| "setitem ((k', v') # d) k v = (if k' = k then (k', v) # d else (k', v') # setitem d k v)"

text \<open>
  A \<^verbatim>\<open>Counter\<close> reads a missing key as 0, so \<^verbatim>\<open>c[k] += v\<close> never raises.
\<close>

definition counter_get :: "tally \<Rightarrow> string \<Rightarrow> int" where
  "counter_get c k = (case map_of c k of None \<Rightarrow> 0 | Some v \<Rightarrow> v)"

definition counter_add :: "string \<Rightarrow> int \<Rightarrow> tally \<Rightarrow> tally" where
  "counter_add k v c = setitem c k (counter_get c k + v)"

text \<open>
  The question banks (\<^verbatim>\<open>questions/main_questions.py\<close>,
  \<^verbatim>\<open>questions/tie_breaker_questions.py\<close>) are data outside \<^verbatim>\<open>app.py\<close>; the
  functions take them as parameters. A field the source reads with \<^verbatim>\<open>.get\<close> or tests
  with \<^verbatim>\<open>in\<close> may be absent (\<open>None\<close>). The weight of an aptitude is an integer, on
  which \<^verbatim>\<open>int(score)\<close> is the identity.
\<close>

record opt =
  o_riasec :: "string option"
  o_aptitudes :: "(string \<times> int) list option"

record question =
  q_number :: int
  q_options :: "(string \<times> opt) list option"
  q_pair :: "string option"
  q_explain :: "string option"
  q_hint :: "string option"
  q_job_text :: "string option"

text \<open>
  What \<^verbatim>\<open>app.py\<close> takes from outside: the two banks, and the built-ins whose results
  the scoring depends on. \<open>py_int\<close> is \<^verbatim>\<open>int(qnum_key)\<close> on a string (\<open>None\<close> when it
  raises), \<open>py_lower\<close> is \<^verbatim>\<open>str.lower\<close>, \<open>re_search patt txt\<close> says whether
  \<^verbatim>\<open>re.search(patt, txt)\<close> finds a match.
\<close>

record env =
  QUESTIONS :: "question list"
  TIE_BREAKER_QUESTIONS :: "question list"
  py_int :: "string \<Rightarrow> int option"
  py_lower :: "string \<Rightarrow> string"
  re_search :: "string \<Rightarrow> string \<Rightarrow> bool"

definition NEW_APTITUDES :: "string list" where
  "NEW_APTITUDES =
     [''Logical Reasoning'', ''Mechanical'', ''Creative'', ''Verbal Communication'',
      ''Numerical'', ''Social/Helping'', ''Leadership/Persuasion'', ''Digital/Computer'',
      ''Organizing/Structuring'', ''Writing/Expression'', ''Scientific'', ''Spatial/Design'']"

definition OLD_TO_NEW_APT_MAP :: "(string \<times> string list) list" where
  "OLD_TO_NEW_APT_MAP =
     [(''Analytical'', [''Logical Reasoning'']),
      (''Technical'', [''Mechanical'']),
      (''Spatial'', [''Spatial/Design'']),
      (''Verbal'', [''Verbal Communication'']),
      (''Creative'', [''Creative''])]"

definition KEYWORD_TO_APTS :: "(string \<times> string list) list" where
  "KEYWORD_TO_APTS =
     [(''mechanic|machin|tool|repair|operate|equipment|assembly'',
         [''Mechanical'', ''Spatial/Design'']),
      (''design|creative|art|visual|graphic|illustrat|style|compose'',
         [''Creative'', ''Writing/Expression'', ''Spatial/Design'']),
      (''analy|research|study|evaluate|experiment|data|statistic'',
         [''Logical Reasoning'', ''Scientific'', ''Numerical'']),
      (''teach|help|support|counsel|mentor|coach'',
         [''Social/Helping'', ''Verbal Communication'']),
      (''lead|manage|supervis|coordinate|direct|influence|persuad'',
         [''Leadership/Persuasion'', ''Organizing/Structuring'']),
      (''software|digital|computer|it|program|code|data entry|excel'',
         [''Digital/Computer'', ''Organizing/Structuring'']),
      (''write|document|report|communicat|present'',
         [''Writing/Expression'', ''Verbal Communication'']),
      (''budget|finance|cost|account|number|math|calculate'', [''Numerical''])]"

section \<open>Score calculation\<close>

text \<open>
  \<^verbatim>\<open>enrich_from_text\<close>, on the value of a text field that is present. An empty text
  gives no boost.
\<close>

definition enrich_from_text :: "env \<Rightarrow> string \<Rightarrow> tally" where
  "enrich_from_text env text =
     (if text = [] then []
      else
        let txt = py_lower env text in
        fold (\<lambda>(patt, apt_list) boosts.
                if re_search env patt txt
                then fold (\<lambda>a boosts'. counter_add a 1 boosts') apt_list boosts
                else boosts)
          KEYWORD_TO_APTS [])"

text \<open>
  The question an answer refers to: looked up in the main bank when the number is at most
  \<^verbatim>\<open>len(QUESTIONS)\<close>, in the tie-breaker bank otherwise; \<^verbatim>\<open>next(..., None)\<close> is
  \<^const>\<open>find\<close>.
\<close>

definition resolve_question :: "env \<Rightarrow> int \<Rightarrow> question option" where
  "resolve_question env qnum =
     (let main_total = int (length (QUESTIONS env)) in
      if qnum \<le> main_total then find (\<lambda>q. q_number q = qnum) (QUESTIONS env)
      else find (\<lambda>q. q_number q = qnum) (TIE_BREAKER_QUESTIONS env))"

text \<open>\<^verbatim>\<open>question.get('options', {})\<close>\<close>

definition get_options :: "question \<Rightarrow> (string \<times> opt) list" where
  "get_options question = (case q_options question of None \<Rightarrow> [] | Some d \<Rightarrow> d)"

text \<open>\<^verbatim>\<open>option.get('aptitudes', {}) or {}\<close>\<close>

definition get_aptitudes :: "opt \<Rightarrow> (string \<times> int) list" where
  "get_aptitudes option = (case o_aptitudes option of None \<Rightarrow> [] | Some d \<Rightarrow> d)"

text \<open>
  The body of \<^verbatim>\<open>for old_key, score in option_apts.items()\<close>: a legacy key adds the
  weight to each name it maps to, a current name takes it directly, any other key is
  ignored.
\<close>

definition apply_aptitude :: "string \<times> int \<Rightarrow> tally \<Rightarrow> tally" where
  "apply_aptitude entry aptitude_scores =
     (let (old_key, score) = entry in
      case map_of OLD_TO_NEW_APT_MAP old_key of
        Some new_keys \<Rightarrow>
          fold (\<lambda>new_key scores. counter_add new_key score scores) new_keys aptitude_scores
      | None \<Rightarrow>
          if old_key \<in> set NEW_APTITUDES then counter_add old_key score aptitude_scores
          else aptitude_scores)"

text \<open>
  The text enrichment of one answered question: for each of the fields \<^verbatim>\<open>explain\<close>,
  \<^verbatim>\<open>hint\<close>, \<^verbatim>\<open>job_text\<close> that the question has, the boosts of its text are added.
\<close>

definition apply_enrichment :: "env \<Rightarrow> question \<Rightarrow> tally \<Rightarrow> tally" where
  "apply_enrichment env question aptitude_scores =
     fold (\<lambda>text_field scores.
             case text_field question of
               None \<Rightarrow> scores
             | Some text \<Rightarrow>
                 fold (\<lambda>(k, v) scores'. counter_add k v scores') (enrich_from_text env text) scores)
       [q_explain, q_hint, q_job_text] aptitude_scores"

text \<open>
  One turn of the loop over \<^verbatim>\<open>session['answers'].items()\<close>. Each \<^verbatim>\<open>continue\<close>
  returns the tallies unchanged. The places that can raise are the membership test
  \<^verbatim>\<open>selected not in question.get('options', {})\<close> and the subscripts
  \<^verbatim>\<open>question['options'][selected]\<close> and \<^verbatim>\<open>riasec_scores[riasec_code] += 1\<close>; only
  \<^verbatim>\<open>int(qnum_key)\<close> stands in a \<^verbatim>\<open>try\<close>.
\<close>

definition score_answer ::
  "env \<Rightarrow> bool \<Rightarrow> string \<times> json \<Rightarrow> tally \<times> tally \<Rightarrow> py_error + tally \<times> tally" where
  "score_answer env use_text_enrichment entry st =
     (let (qnum_key, selected) = entry; (riasec_scores, aptitude_scores) = st in
      case py_int env qnum_key of
        None \<Rightarrow> Inr st
      | Some qnum \<Rightarrow>
         (case resolve_question env qnum of
            None \<Rightarrow> Inr st
          | Some question \<Rightarrow>
             (case contains (get_options question) selected of
                Inl e \<Rightarrow> Inl e
              | Inr False \<Rightarrow> Inr st
              | Inr True \<Rightarrow>
               (case q_options question of
                  None \<Rightarrow> Inl KeyError
                | Some options \<Rightarrow>
                   (case getitem_json options selected of
                      Inl e \<Rightarrow> Inl e
                    | Inr option \<Rightarrow>
                       (case (case o_riasec option of
                                None \<Rightarrow> Inr riasec_scores
                              | Some riasec_code \<Rightarrow>
                                  if riasec_code \<in> set (map fst riasec_scores)
                                  then (case getitem riasec_scores riasec_code of
                                          Inl e \<Rightarrow> Inl e
                                        | Inr n \<Rightarrow> Inr (setitem riasec_scores riasec_code (n + 1)))
                                  else Inr riasec_scores) of
                          Inl e \<Rightarrow> Inl e
                        | Inr riasec_scores' \<Rightarrow>
                            let option_apts = get_aptitudes option;
                                aptitude_scores' = fold apply_aptitude option_apts aptitude_scores;
                                aptitude_scores'' =
                                  (if use_text_enrichment
                                   then apply_enrichment env question aptitude_scores'
                                   else aptitude_scores')
                            in Inr (riasec_scores', aptitude_scores'')))))))"

fun score_answers ::
  "env \<Rightarrow> bool \<Rightarrow> (string \<times> json) list \<Rightarrow> tally \<times> tally \<Rightarrow> py_error + tally \<times> tally" where
  "score_answers env use_text_enrichment [] st = Inr st"
| "score_answers env use_text_enrichment (entry # answers) st =
     (case score_answer env use_text_enrichment entry st of
        Inl e \<Rightarrow> Inl e
      | Inr st' \<Rightarrow> score_answers env use_text_enrichment answers st')"

text \<open>
  \<^verbatim>\<open>calculate_scores\<close>. The answers are \<^verbatim>\<open>session.get('answers', {})\<close>, a dict from
  the question number as a string to the stored label, in iteration order. An exception
  of a turn leaves the loop and the function.
\<close>

definition calculate_scores ::
  "env \<Rightarrow> (string \<times> json) list \<Rightarrow> bool \<Rightarrow> py_error + tally \<times> tally" where
  "calculate_scores env answers use_text_enrichment =
     (let riasec_scores = map (\<lambda>c. (c, 0)) RIASEC;
          aptitude_scores = map (\<lambda>a. (a, 0)) NEW_APTITUDES
      in score_answers env use_text_enrichment answers (riasec_scores, aptitude_scores))"

section \<open>Tie-breaker helpers\<close>

text \<open>
  \<^verbatim>\<open>sorted(riasec_scores.items(), key=lambda x: x[1], reverse=True)\<close>.
  Python's sort is stable, also under \<^verbatim>\<open>reverse=True\<close>: items of equal score keep the
  order of the dict. \<^const>\<open>sort_key\<close> is a stable insertion sort, so sorting by the
  negated score is that list.
\<close>

definition sorted_by_score :: "tally \<Rightarrow> tally" where
  "sorted_by_score riasec_scores = sort_key (\<lambda>x. - snd x) riasec_scores"

text \<open>\<^verbatim>\<open>a,b = sorted([x, y]); f"{a}-{b}"\<close>\<close>

definition fmt_pair :: "string \<Rightarrow> string \<Rightarrow> string" where
  "fmt_pair x y = (let ab = sort [x, y] in (ab ! 0) @ ''-'' @ (ab ! 1))"

text \<open>
  The two nested \<^verbatim>\<open>for\<close> loops over \<^verbatim>\<open>third_place_codes\<close>:
  \<^verbatim>\<open>for i in range(n): for j in range(i+1, n): pairs.add(...)\<close>.
\<close>

definition add_third_place_pairs :: "string list \<Rightarrow> string set \<Rightarrow> string set" where
  "add_third_place_pairs third_place_codes pairs =
     fold (\<lambda>i ps.
        fold (\<lambda>j ps'. insert (fmt_pair (third_place_codes ! i) (third_place_codes ! j)) ps')
          [i + 1 ..< length third_place_codes] ps)
       [0 ..< length third_place_codes] pairs"

definition identify_tie_pairs :: "tally \<Rightarrow> int \<Rightarrow> string set" where
  "identify_tie_pairs riasec_scores delta =
     (let sorted_by_score = sorted_by_score riasec_scores in
      if length sorted_by_score < 3 then {}
      else
        let codes_order = map fst sorted_by_score;
            scores = map snd sorted_by_score;
            pairs = {};
            first_score = scores ! 0; second_score = scores ! 1; third_score = scores ! 2;
            first_code = codes_order ! 0; second_code = codes_order ! 1;
            third_code = codes_order ! 2;
            pairs = (if first_score - second_score < delta
                     then insert (fmt_pair first_code second_code) pairs else pairs);
            pairs = (if second_score - third_score < delta
                     then insert (fmt_pair second_code third_code) pairs else pairs);
            third_place_codes = map fst (filter (\<lambda>(c, s). s = third_score) sorted_by_score);
            pairs = (if length third_place_codes > 1
                     then add_third_place_pairs third_place_codes pairs else pairs)
        in pairs)"

text \<open>
  \<^verbatim>\<open>resolve_riasec_code\<close>: \<^verbatim>\<open>sorted(items, key=lambda x: (-x[1], x[0]))\<close>, the first
  three items, their letters joined.
\<close>

definition resolve_riasec_code :: "tally \<Rightarrow> string" where
  "resolve_riasec_code riasec_scores =
     (let ordered = sort_key (\<lambda>x. (- snd x, fst x)) riasec_scores;
          top3 = take 3 ordered
      in concat (map fst top3))"

text \<open>
  \<^verbatim>\<open>get_questions_for_pairs\<close>. \<open>pairs\<close> is the set of pair strings in the order the
  loop visits it.
\<close>

definition get_questions_for_pairs :: "env \<Rightarrow> string list \<Rightarrow> string set \<Rightarrow> question list" where
  "get_questions_for_pairs env pairs already_asked =
     fold (\<lambda>pair new_qs.
             if pair \<in> already_asked then new_qs
             else
               let matched = filter (\<lambda>q. q_pair q = Some pair) (TIE_BREAKER_QUESTIONS env) in
               if matched \<noteq> [] then new_qs @ take 2 matched else new_qs)
       pairs []"

section \<open>The specification's wording, as definitions\<close>

text \<open>The pair of two letters, canonicalized by sorting the two letters.\<close>

definition spec_pair :: "string \<Rightarrow> string \<Rightarrow> string" where
  "spec_pair a b = (if a \<le> b then a @ ''-'' @ b else b @ ''-'' @ a)"

text \<open>Every pairwise combination among the categories of a set.\<close>

definition all_pairs :: "string set \<Rightarrow> string set" where
  "all_pairs T = (\<lambda>(a, b). spec_pair a b) ` {(a, b) \<in> T \<times> T. a \<noteq> b}"

text \<open>The categories whose score is exactly \<open>s\<close>.\<close>

definition tied_at :: "tally \<Rightarrow> int \<Rightarrow> string set" where
  "tied_at t s = fst ` {x \<in> set t. snd x = s}"

text \<open>
  Step 1 of the Tie-Break Selector, without reference to the code: \<open>ranked\<close> lists the
  associations of the tally by score descending, and categories of equal score stand in
  the key order of the tally, the order a stable sort leaves.
\<close>

definition spec_ranking :: "tally \<Rightarrow> tally \<Rightarrow> bool" where
  "spec_ranking t ranked \<longleftrightarrow>
     mset ranked = mset t
     \<and> sorted_wrt (\<lambda>x y. snd y \<le> snd x) ranked
     \<and> (\<forall>x \<in> set t. filter (\<lambda>y. snd y = snd x) ranked = filter (\<lambda>y. snd y = snd x) t)"

text \<open>
  Steps 3 to 7 as the specification words them, on a ranking: the top three, the two gap
  rules, and the rule for a multi-way tie at the third score.
\<close>

definition spec_tie_pairs :: "tally \<Rightarrow> tally \<Rightarrow> int \<Rightarrow> string set" where
  "spec_tie_pairs ranked t delta =
     (let (code1, score1) = ranked ! 0;
          (code2, score2) = ranked ! 1;
          (code3, score3) = ranked ! 2;
          tied = tied_at t score3
      in (if score1 - score2 < delta then {spec_pair code1 code2} else {})
       \<union> (if score2 - score3 < delta then {spec_pair code2 code3} else {})
       \<union> (if card tied > 1 then all_pairs tied else {}))"

text \<open>
  The third-ranked score of a tally: the third of its scores in descending order,
  whatever the order of its keys.
\<close>

definition third_ranked_score :: "tally \<Rightarrow> int" where
  "third_ranked_score t = rev (sort (map snd t)) ! 2"

text \<open>
  Two tallies hold the same category-to-score associations, in whatever key order each has.
\<close>

definition same_associations :: "tally \<Rightarrow> tally \<Rightarrow> bool" where
  "same_associations t1 t2 \<longleftrightarrow>
     distinct (map fst t1) \<and> distinct (map fst t2) \<and> set t1 = set t2"

text \<open>
  The order of the Results Resolver: descending score, ascending letter on equal scores.
\<close>

definition ranks_before :: "string \<times> int \<Rightarrow> string \<times> int \<Rightarrow> bool" where
  "ranks_before x y \<longleftrightarrow> snd y < snd x \<or> (snd x = snd y \<and> fst x < fst y)"

text \<open>The sort key \<^verbatim>\<open>(-x[1], x[0])\<close> of \<^verbatim>\<open>resolve_riasec_code\<close>, named.\<close>

definition code_key :: "string \<times> int \<Rightarrow> int \<times> string" where
  "code_key x = (- snd x, fst x)"

text \<open>
  The question and option an Answer Record entry selects: the key parses, the question is
  found by the size rule, and the label is a string among its options. \<open>None\<close> for an
  entry that selects nothing.
\<close>

definition resolve_answer :: "env \<Rightarrow> string \<times> json \<Rightarrow> (question \<times> opt) option" where
  "resolve_answer env entry =
     (case py_int env (fst entry) of
        None \<Rightarrow> None
      | Some qnum \<Rightarrow>
         (case resolve_question env qnum of
            None \<Rightarrow> None
          | Some question \<Rightarrow>
             (case snd entry of
                JString label \<Rightarrow>
                  (case map_of (get_options question) label of
                     None \<Rightarrow> None
                   | Some option \<Rightarrow> Some (question, option))
              | _ \<Rightarrow> None)))"

text \<open>
  The entry refers to a question of the banks and its label is a list or a dict: the
  entries on which the membership test of the label raises.
\<close>

definition label_raises :: "env \<Rightarrow> string \<times> json \<Rightarrow> bool" where
  "label_raises env entry =
     (case py_int env (fst entry) of
        None \<Rightarrow> False
      | Some qnum \<Rightarrow>
         (case resolve_question env qnum of
            None \<Rightarrow> False
          | Some question \<Rightarrow> \<not> hashable (snd entry)))"

text \<open>
  The entry is an answered question whose selected option carries a RIASEC code, one of
  the six letters.
\<close>

definition carries_riasec :: "env \<Rightarrow> string \<times> json \<Rightarrow> bool" where
  "carries_riasec env entry =
     (case resolve_answer env entry of
        None \<Rightarrow> False
      | Some (question, option) \<Rightarrow>
         (case o_riasec option of None \<Rightarrow> False | Some code \<Rightarrow> code \<in> set RIASEC))"

text \<open>
  Modelled from the spec: the question banks \<^verbatim>\<open>questions/main_questions.py\<close> and
  \<^verbatim>\<open>questions/tie_breaker_questions.py\<close> are data outside \<^verbatim>\<open>app.py\<close>. The
  specification describes the Aptitude Tally as initialized to zero and only ever
  incremented: every aptitude weight of the two banks is at least 0.
\<close>

definition nonneg_weights :: "env \<Rightarrow> bool" where
  "nonneg_weights env \<longleftrightarrow>
     (\<forall>q \<in> set (QUESTIONS env @ TIE_BREAKER_QUESTIONS env).
        \<forall>lo \<in> set (get_options q). \<forall>kw \<in> set (get_aptitudes (snd lo)). 0 \<le> snd kw)"

text \<open>
  Up to 2 tie-breaker questions whose \<open>pair\<close> field equals the pair, in the bank's natural
  order.
\<close>

definition pair_questions :: "env \<Rightarrow> string \<Rightarrow> question list" where
  "pair_questions env p = take 2 (filter (\<lambda>q. q_pair q = Some p) (TIE_BREAKER_QUESTIONS env))"

text \<open>All values of a tally are at least 0.\<close>

definition nonneg :: "tally \<Rightarrow> bool" where
  "nonneg c \<longleftrightarrow> (\<forall>x \<in> set c. 0 \<le> snd x)"

text \<open>
  The effect of \<^verbatim>\<open>if riasec_code in riasec_scores: riasec_scores[riasec_code] += 1\<close> on
  the tally, for the option's \<^verbatim>\<open>option.get('riasec')\<close>.
\<close>

definition bump_riasec :: "opt \<Rightarrow> tally \<Rightarrow> tally" where
  "bump_riasec option rs =
     (case o_riasec option of
        None \<Rightarrow> rs
      | Some code \<Rightarrow>
          if code \<in> set (map fst rs) then setitem rs code (counter_get rs code + 1) else rs)"

section \<open>A small question bank for the examples\<close>

text \<open>
  One main question and four tie-breaker questions, three of them for the pair \<open>I-R\<close>.
  \<open>py_int\<close> is \<^verbatim>\<open>int\<close> on the keys the examples use. The one text of the bank is
  in lower case already and matches the first keyword pattern only, which is what
  \<open>py_lower\<close> and \<open>re_search\<close> say.
\<close>

definition example_main :: "question list" where
  "example_main =
     [\<lparr>q_number = 1,
       q_options = Some
         [(''A'', \<lparr>o_riasec = Some ''R'',
                  o_aptitudes = Some [(''Technical'', 2), (''Numerical'', 1), (''Juggling'', 5)]\<rparr>),
          (''B'', \<lparr>o_riasec = Some ''I'', o_aptitudes = Some [(''Analytical'', 1)]\<rparr>)],
       q_pair = None, q_explain = None, q_hint = Some ''repair a machine'',
       q_job_text = None\<rparr>]"

definition example_tie :: "question list" where
  "example_tie =
     map (\<lambda>(n, p).
        \<lparr>q_number = n,
         q_options = Some
           [(''A'', \<lparr>o_riasec = Some ''I'', o_aptitudes = None\<rparr>),
            (''B'', \<lparr>o_riasec = None, o_aptitudes = None\<rparr>)],
         q_pair = Some p, q_explain = None, q_hint = None, q_job_text = None\<rparr>)
       [(2, ''I-R''), (3, ''A-S''), (4, ''I-R''), (5, ''I-R'')]"

definition example_env :: env where
  "example_env =
     \<lparr>QUESTIONS = example_main, TIE_BREAKER_QUESTIONS = example_tie,
      py_int = map_of [(''1'', 1), (''2'', 2), (''9'', 9)],
      py_lower = (\<lambda>s. s),
      re_search = (\<lambda>patt s.
        patt = ''mechanic|machin|tool|repair|operate|equipment|assembly''
        \<and> s = ''repair a machine'')\<rparr>"

section \<open>Properties of the tie-breaker helpers\<close>

lemma fmt_pair_spec: "fmt_pair a b = spec_pair a b"
  by (simp add: fmt_pair_def spec_pair_def)

lemma spec_pair_commute: "spec_pair a b = spec_pair b a"
  by (auto simp: spec_pair_def)

lemma fold_insert_image: "fold (\<lambda>j ps. insert (f j) ps) js A = A \<union> f ` set js"
  by (induction js arbitrary: A) auto

lemma fold_union_UN: "fold (\<lambda>i ps. ps \<union> g i) is A = A \<union> (\<Union>i\<in>set is. g i)"
  by (induction "is" arbitrary: A) auto

lemma add_third_place_pairs_index:
  "add_third_place_pairs cs A =
     A \<union> {spec_pair (cs ! i) (cs ! j) | i j. i < j \<and> j < length cs}"
proof -
  have "add_third_place_pairs cs A =
      fold (\<lambda>i ps. ps \<union> (\<lambda>j. spec_pair (cs ! i) (cs ! j)) ` set [i + 1 ..< length cs])
        [0 ..< length cs] A"
    by (simp add: add_third_place_pairs_def fold_insert_image fmt_pair_spec)
  also have "\<dots> = A \<union> (\<Union>i\<in>set [0 ..< length cs].
      (\<lambda>j. spec_pair (cs ! i) (cs ! j)) ` set [i + 1 ..< length cs])"
    by (rule fold_union_UN)
  also have "(\<Union>i\<in>set [0 ..< length cs].
      (\<lambda>j. spec_pair (cs ! i) (cs ! j)) ` set [i + 1 ..< length cs])
    = {spec_pair (cs ! i) (cs ! j) | i j. i < j \<and> j < length cs}" (is "?L = ?R")
  proof (intro set_eqI iffI)
    fix p assume "p \<in> ?L"
    then obtain i j where "i < length cs" "Suc i \<le> j" "j < length cs"
      "p = spec_pair (cs ! i) (cs ! j)" by auto
    then show "p \<in> ?R" by (intro CollectI exI[of _ i] exI[of _ j]) simp
  next
    fix p assume "p \<in> ?R"
    then obtain i j where ij: "i < j" "j < length cs" "p = spec_pair (cs ! i) (cs ! j)" by blast
    then have "i \<in> set [0 ..< length cs]" "j \<in> set [i + 1 ..< length cs]" by simp_all
    with ij(3) show "p \<in> ?L" by blast
  qed
  finally show ?thesis .
qed

lemma all_pairs_index:
  "all_pairs (set cs) \<subseteq> {spec_pair (cs ! i) (cs ! j) | i j. i < j \<and> j < length cs}"
proof
  fix p assume "p \<in> all_pairs (set cs)"
  then obtain a b where ab: "p = spec_pair a b" "a \<in> set cs" "b \<in> set cs" "a \<noteq> b"
    unfolding all_pairs_def by auto
  then obtain i j where ij: "i < length cs" "cs ! i = a" "j < length cs" "cs ! j = b"
    by (auto simp: in_set_conv_nth)
  with ab have "i \<noteq> j" by auto
  then consider "i < j" | "j < i" by linarith
  then show "p \<in> {spec_pair (cs ! i) (cs ! j) | i j. i < j \<and> j < length cs}"
  proof cases
    case 1 then show ?thesis using ab ij by blast
  next
    case 2 then show ?thesis using ab ij spec_pair_commute[of a b] by blast
  qed
qed

lemma index_pairs_all_pairs:
  assumes "distinct cs"
  shows "{spec_pair (cs ! i) (cs ! j) | i j. i < j \<and> j < length cs} = all_pairs (set cs)"
proof
  show "all_pairs (set cs) \<subseteq> {spec_pair (cs ! i) (cs ! j) | i j. i < j \<and> j < length cs}"
    by (rule all_pairs_index)
  show "{spec_pair (cs ! i) (cs ! j) | i j. i < j \<and> j < length cs} \<subseteq> all_pairs (set cs)"
  proof
    fix p assume "p \<in> {spec_pair (cs ! i) (cs ! j) | i j. i < j \<and> j < length cs}"
    then obtain i j where ij: "p = spec_pair (cs ! i) (cs ! j)" "i < j" "j < length cs" by blast
    then have ne: "cs ! i \<noteq> cs ! j" using assms by (simp add: nth_eq_iff_index_eq)
    have "(cs ! i, cs ! j) \<in> {(a, b) \<in> set cs \<times> set cs. a \<noteq> b}" using ij ne by simp
    then show "p \<in> all_pairs (set cs)"
      unfolding all_pairs_def using ij(1) by (metis (no_types, lifting) case_prod_conv image_eqI)
  qed
qed

lemma third_place_codes_set:
  "set (map fst (filter (\<lambda>(c, s). s = k) (sorted_by_score t))) = tied_at t k"
  by (auto simp: tied_at_def sorted_by_score_def)

lemma distinct_keys_sorted_by_score:
  "distinct (map fst t) \<Longrightarrow> distinct (map fst (sorted_by_score t))"
  by (simp add: sorted_by_score_def distinct_map)

lemma third_place_codes_distinct:
  "distinct (map fst t) \<Longrightarrow> distinct (map fst (filter (\<lambda>(c, s). s = k) (sorted_by_score t)))"
  by (rule distinct_map_filter) (rule distinct_keys_sorted_by_score)

lemma identify_tie_pairs_unfold:
  assumes "3 \<le> length t"
  shows "identify_tie_pairs t delta =
     (let S = sorted_by_score t;
          tpc = map fst (filter (\<lambda>(c, s). s = snd (S ! 2)) S)
      in (if snd (S ! 0) - snd (S ! 1) < delta then {spec_pair (fst (S ! 0)) (fst (S ! 1))} else {})
       \<union> (if snd (S ! 1) - snd (S ! 2) < delta then {spec_pair (fst (S ! 1)) (fst (S ! 2))} else {})
       \<union> (if length tpc > 1 then {spec_pair (tpc ! i) (tpc ! j) | i j. i < j \<and> j < length tpc} else {}))"
proof -
  define S where "S = sorted_by_score t"
  have len: "3 \<le> length S" using assms by (simp add: S_def sorted_by_score_def)
  then have "0 < length S" "1 < length S" "2 < length S" by linarith+
  then have nths: "map snd S ! 0 = snd (S ! 0)" "map snd S ! 1 = snd (S ! 1)"
    "map snd S ! 2 = snd (S ! 2)" "map fst S ! 0 = fst (S ! 0)" "map fst S ! 1 = fst (S ! 1)"
    "map fst S ! 2 = fst (S ! 2)"
    by (simp_all add: nth_map)
  have "\<not> length S < 3" using len by simp
  then show ?thesis
    unfolding identify_tie_pairs_def Let_def S_def[symmetric] nths
    by (auto simp: add_third_place_pairs_index fmt_pair_spec)
qed


lemma two_elements_length:
  assumes "a \<in> set cs" "b \<in> set cs" "a \<noteq> b"
  shows "1 < length cs"
proof -
  have "card {a, b} \<le> card (set cs)" using assms by (intro card_mono) auto
  also have "\<dots> \<le> length cs" by (rule card_length)
  finally show ?thesis using assms(3) by simp
qed

lemma identify_tie_pairs_spec:
  assumes d: "distinct (map fst t)" and len: "3 \<le> length t"
  shows "identify_tie_pairs t delta = spec_tie_pairs (sorted_by_score t) t delta"
proof -
  define S where "S = sorted_by_score t"
  define tpc where "tpc = map fst (filter (\<lambda>(c, s). s = snd (S ! 2)) S)"
  have dt: "distinct tpc" unfolding tpc_def S_def by (rule third_place_codes_distinct[OF d])
  have st: "set tpc = tied_at t (snd (S ! 2))" unfolding tpc_def S_def by (rule third_place_codes_set)
  have card: "card (tied_at t (snd (S ! 2))) = length tpc"
    using dt st distinct_card by metis
  have idx: "{spec_pair (tpc ! i) (tpc ! j) | i j. i < j \<and> j < length tpc}
      = all_pairs (tied_at t (snd (S ! 2)))"
    using index_pairs_all_pairs[OF dt] st by simp
  have "identify_tie_pairs t delta =
      (if snd (S ! 0) - snd (S ! 1) < delta then {spec_pair (fst (S ! 0)) (fst (S ! 1))} else {})
    \<union> (if snd (S ! 1) - snd (S ! 2) < delta then {spec_pair (fst (S ! 1)) (fst (S ! 2))} else {})
    \<union> (if length tpc > 1 then {spec_pair (tpc ! i) (tpc ! j) | i j. i < j \<and> j < length tpc}
       else {})"
    by (simp only: identify_tie_pairs_unfold[OF len] Let_def S_def tpc_def)
  also have "\<dots> =
      (if snd (S ! 0) - snd (S ! 1) < delta then {spec_pair (fst (S ! 0)) (fst (S ! 1))} else {})
    \<union> (if snd (S ! 1) - snd (S ! 2) < delta then {spec_pair (fst (S ! 1)) (fst (S ! 2))} else {})
    \<union> (if card (tied_at t (snd (S ! 2))) > 1 then all_pairs (tied_at t (snd (S ! 2))) else {})"
    by (simp only: idx card)
  also have "\<dots> = spec_tie_pairs (sorted_by_score t) t delta"
    by (simp only: spec_tie_pairs_def Let_def S_def case_prod_unfold)
  finally show ?thesis .
qed

lemma spec_ranking_sorted_by_score: "spec_ranking t (sorted_by_score t)"
proof -
  have "filter (\<lambda>y. snd y = k) (sorted_by_score t) = filter (\<lambda>y. snd y = k) t" for k
  proof -
    have "(\<lambda>y :: string \<times> int. snd y = k) = (\<lambda>y. - snd y = - k)" by auto
    then show ?thesis
      using sort_key_stable[of "\<lambda>x :: string \<times> int. - snd x" "- k" t]
      by (simp add: sorted_by_score_def)
  qed
  moreover have "sorted (map (\<lambda>x. - snd x) (sorted_by_score t))"
    by (simp add: sorted_by_score_def)
  then have "sorted_wrt (\<lambda>x y. snd y \<le> snd x) (sorted_by_score t)"
    by (simp add: sorted_map)
  moreover have "mset (sorted_by_score t) = mset t" by (simp add: sorted_by_score_def)
  ultimately show ?thesis by (simp add: spec_ranking_def)
qed

lemma spec_ranking_unique:
  assumes "spec_ranking t ranked"
  shows "ranked = sorted_by_score t"
proof -
  have m: "mset ranked = mset t"
    and s: "sorted_wrt (\<lambda>x y. snd y \<le> snd x) ranked"
    and f: "\<forall>x \<in> set t. filter (\<lambda>y. snd y = snd x) ranked = filter (\<lambda>y. snd y = snd x) t"
    using assms by (simp_all add: spec_ranking_def)
  have set_eq: "set ranked = set t" using m by (rule mset_eq_setD)
  have "sort_key (\<lambda>x. - snd x) t = ranked"
  proof (rule properties_for_sort_key)
    show "mset ranked = mset t" by (rule m)
    show "sorted (map (\<lambda>x. - snd x) ranked)" using s by (simp add: sorted_map)
    show "filter (\<lambda>x. - snd k = - snd x) ranked = filter (\<lambda>x. - snd k = - snd x) t"
      if "k \<in> set ranked" for k
    proof -
      have "(\<lambda>x :: string \<times> int. - snd k = - snd x) = (\<lambda>y. snd y = snd k)" by auto
      then show ?thesis using f that set_eq by simp
    qed
  qed
  then show ?thesis by (simp add: sorted_by_score_def)
qed

lemma sorted_scores_rev_sort: "map snd (sorted_by_score t) = rev (sort (map snd t))"
proof -
  have "sort (map (\<lambda>x. - snd x) t) = map uminus (rev (sort (map snd t)))"
  proof (rule properties_for_sort)
    show "mset (map uminus (rev (sort (map snd t)))) = mset (map (\<lambda>x. - snd x) t)"
      by (simp add: multiset.map_comp comp_def)
    have "sorted_wrt (\<lambda>x y. - y \<le> - x) (sort (map snd t))" by simp
    then show "sorted (map uminus (rev (sort (map snd t))))"
      by (simp only: rev_map sorted_map sorted_wrt_rev)
  qed
  moreover have "map (\<lambda>x. - snd x) (sorted_by_score t) = sort (map (\<lambda>x. - snd x) t)"
    by (rule properties_for_sort[symmetric]) (simp_all add: sorted_by_score_def)
  ultimately have "map uminus (map (\<lambda>x. - snd x) (sorted_by_score t))
      = map uminus (map uminus (rev (sort (map snd t))))"
    by simp
  then show ?thesis by (simp add: comp_def)
qed

lemma third_ranked_score_sorted:
  assumes "3 \<le> length t"
  shows "snd (sorted_by_score t ! 2) = third_ranked_score t"
proof -
  have "2 < length (sorted_by_score t)" using assms by (simp add: sorted_by_score_def)
  then have "snd (sorted_by_score t ! 2) = map snd (sorted_by_score t) ! 2" by simp
  then show ?thesis by (simp only: sorted_scores_rev_sort third_ranked_score_def)
qed

lemma identify_tie_pairs_third_place:
  assumes len: "3 \<le> length t"
    and a: "a \<in> tied_at t (snd (sorted_by_score t ! 2))"
    and b: "b \<in> tied_at t (snd (sorted_by_score t ! 2))"
    and ne: "a \<noteq> b"
  shows "spec_pair a b \<in> identify_tie_pairs t delta"
proof -
  define S where "S = sorted_by_score t"
  define tpc where "tpc = map fst (filter (\<lambda>(c, s). s = snd (S ! 2)) S)"
  have st: "set tpc = tied_at t (snd (S ! 2))" unfolding tpc_def S_def by (rule third_place_codes_set)
  have ab: "a \<in> set tpc" "b \<in> set tpc" using a b st by (simp_all add: S_def)
  then have l: "1 < length tpc" using ne by (rule two_elements_length)
  have "spec_pair a b \<in> all_pairs (set tpc)"
    unfolding all_pairs_def using ab ne by (intro image_eqI[of _ _ "(a, b)"]) simp_all
  then have "spec_pair a b \<in> {spec_pair (tpc ! i) (tpc ! j) | i j. i < j \<and> j < length tpc}"
    using all_pairs_index by blast
  moreover have "identify_tie_pairs t delta =
      (if snd (S ! 0) - snd (S ! 1) < delta then {spec_pair (fst (S ! 0)) (fst (S ! 1))} else {})
    \<union> (if snd (S ! 1) - snd (S ! 2) < delta then {spec_pair (fst (S ! 1)) (fst (S ! 2))} else {})
    \<union> (if length tpc > 1 then {spec_pair (tpc ! i) (tpc ! j) | i j. i < j \<and> j < length tpc}
       else {})"
    by (simp only: identify_tie_pairs_unfold[OF len] Let_def S_def tpc_def)
  ultimately show ?thesis using l by simp
qed

lemma sorted_by_score_desc:
  assumes "i \<le> j" "j < length t"
  shows "snd (sorted_by_score t ! j) \<le> snd (sorted_by_score t ! i)"
proof -
  let ?S = "sorted_by_score t"
  have len: "length ?S = length t" by (simp add: sorted_by_score_def)
  have "sorted (map (\<lambda>x. - snd x) ?S)" by (simp add: sorted_by_score_def)
  then have "map (\<lambda>x. - snd x) ?S ! i \<le> map (\<lambda>x. - snd x) ?S ! j"
    using assms len by (intro sorted_nth_mono) simp_all
  then show ?thesis using assms len by simp
qed

lemma sorted_scores_mset:
  assumes "mset t1 = mset t2"
  shows "map snd (sorted_by_score t1) = map snd (sorted_by_score t2)"
proof -
  have key: "map (\<lambda>x. - snd x) (sorted_by_score t) = sort (map (\<lambda>x. - snd x) t)" for t :: tally
    by (rule properties_for_sort[symmetric]) (simp_all add: sorted_by_score_def)
  have "sort (map (\<lambda>x. - snd x) t1) = sort (map (\<lambda>x. - snd x) t2)"
    by (rule properties_for_sort) (simp_all add: assms)
  then have "map (\<lambda>x. - snd x) (sorted_by_score t1) = map (\<lambda>x. - snd x) (sorted_by_score t2)"
    by (simp only: key)
  then have "map uminus (map (\<lambda>x. - snd x) (sorted_by_score t1))
      = map uminus (map (\<lambda>x. - snd x) (sorted_by_score t2))"
    by (rule arg_cong)
  then show ?thesis by (simp add: comp_def)
qed

lemma finite_tied_at: "finite (tied_at t s)"
  by (simp add: tied_at_def)

lemma two_in_all_pairs:
  assumes "a \<in> T" "b \<in> T" "a \<noteq> b"
  shows "spec_pair a b \<in> all_pairs T"
  unfolding all_pairs_def using assms by (intro image_eqI[of _ _ "(a, b)"]) simp_all

lemma two_card:
  assumes "finite T" "a \<in> T" "b \<in> T" "a \<noteq> b"
  shows "1 < card T"
proof -
  have "card {a, b} \<le> card T" using assms by (intro card_mono) auto
  then show ?thesis using assms(4) by simp
qed

lemma all_pairs_doubleton: "a \<noteq> b \<Longrightarrow> all_pairs {a, b} = {spec_pair a b}"
  unfolding all_pairs_def using spec_pair_commute[of a b] by auto

lemma identify_tie_pairs_low_delta:
  assumes d: "distinct (map fst t)" and len: "3 \<le> length t" and delta: "delta \<le> 1"
  shows "identify_tie_pairs t delta =
     (if delta = 1 \<and> snd (sorted_by_score t ! 0) = snd (sorted_by_score t ! 1)
      then all_pairs (tied_at t (snd (sorted_by_score t ! 0))) else {})
   \<union> (if 1 < card (tied_at t (snd (sorted_by_score t ! 2)))
      then all_pairs (tied_at t (snd (sorted_by_score t ! 2))) else {})"
proof -
  define S where "S = sorted_by_score t"
  define s1 s2 s3 where "s1 = snd (S ! 0)" and "s2 = snd (S ! 1)" and "s3 = snd (S ! 2)"
  define c1 c2 c3 where "c1 = fst (S ! 0)" and "c2 = fst (S ! 1)" and "c3 = fst (S ! 2)"
  have lenS: "length S = length t" by (simp add: S_def sorted_by_score_def)
  have setS: "set S = set t" by (simp add: S_def sorted_by_score_def)
  have dS: "distinct (map fst S)" unfolding S_def by (rule distinct_keys_sorted_by_score[OF d])
  have le: "s2 \<le> s1" "s3 \<le> s2"
    unfolding s1_def s2_def s3_def S_def using len by (auto intro!: sorted_by_score_desc)
  have lt: "0 < length S" "1 < length S" "2 < length S" using len lenS by linarith+
  then have "S ! 0 \<in> set S" "S ! 1 \<in> set S" "S ! 2 \<in> set S" by (simp_all only: nth_mem)
  then have mem: "S ! 0 \<in> set t" "S ! 1 \<in> set t" "S ! 2 \<in> set t"
    by (simp_all only: setS)
  have in1: "c1 \<in> tied_at t s1" and in2: "c2 \<in> tied_at t s2" and in3: "c3 \<in> tied_at t s3"
    unfolding tied_at_def c1_def c2_def c3_def s1_def s2_def s3_def using mem by auto
  have "map fst S ! 0 \<noteq> map fst S ! 1" "map fst S ! 1 \<noteq> map fst S ! 2"
    using nth_eq_iff_index_eq[OF dS, of 0 1] nth_eq_iff_index_eq[OF dS, of 1 2] lt by simp_all
  then have ne: "c1 \<noteq> c2" "c2 \<noteq> c3"
    unfolding c1_def c2_def c3_def using lt by (simp_all add: nth_map)
  have spec: "identify_tie_pairs t delta =
      (if s1 - s2 < delta then {spec_pair c1 c2} else {})
    \<union> (if s2 - s3 < delta then {spec_pair c2 c3} else {})
    \<union> (if 1 < card (tied_at t s3) then all_pairs (tied_at t s3) else {})"
    unfolding identify_tie_pairs_spec[OF d len] spec_tie_pairs_def Let_def case_prod_unfold
      S_def s1_def s2_def s3_def c1_def c2_def c3_def by simp
  have top: "tied_at t s1 = {c1, c2}" if "s1 = s2" "s3 < s2"
  proof
    show "{c1, c2} \<subseteq> tied_at t s1" using in1 in2 that by simp
    show "tied_at t s1 \<subseteq> {c1, c2}"
    proof
      fix c assume "c \<in> tied_at t s1"
      then have "(c, s1) \<in> set S" by (auto simp: tied_at_def setS)
      then obtain k where k: "k < length S" "S ! k = (c, s1)" by (auto simp: in_set_conv_nth)
      have "k < 2"
      proof (rule ccontr)
        assume "\<not> k < 2"
        then have "snd (sorted_by_score t ! k) \<le> snd (sorted_by_score t ! 2)"
          using k(1) lenS by (intro sorted_by_score_desc) simp_all
        then show False using k(2) that by (simp add: S_def[symmetric] s3_def[symmetric])
      qed
      then have "k = 0 \<or> k = 1" by linarith
      then show "c \<in> {c1, c2}" using k(2) by (auto simp: c1_def c2_def)
    qed
  qed
  consider (nonpos) "delta \<le> 0" | (eee) "delta = 1" "s1 = s2" "s2 = s3"
    | (een) "delta = 1" "s1 = s2" "s3 < s2" | (nee) "delta = 1" "s2 < s1" "s2 = s3"
    | (nnn) "delta = 1" "s2 < s1" "s3 < s2"
    using delta le by linarith
  then have "identify_tie_pairs t delta =
     (if delta = 1 \<and> s1 = s2 then all_pairs (tied_at t s1) else {})
   \<union> (if 1 < card (tied_at t s3) then all_pairs (tied_at t s3) else {})"
  proof cases
    case nonpos
    then show ?thesis using le spec by simp
  next
    case eee
    have c: "1 < card (tied_at t s3)"
      using two_card[OF finite_tied_at, of c2 t s3 c3] in2 in3 ne eee by simp
    have "spec_pair c1 c2 \<in> all_pairs (tied_at t s3)" "spec_pair c2 c3 \<in> all_pairs (tied_at t s3)"
      using in1 in2 in3 ne eee by (auto intro: two_in_all_pairs)
    then show ?thesis using spec c eee by auto
  next
    case een
    then show ?thesis using spec top ne all_pairs_doubleton[of c1 c2] by simp
  next
    case nee
    have c: "1 < card (tied_at t s3)"
      using two_card[OF finite_tied_at, of c2 t s3 c3] in2 in3 ne nee by simp
    have "spec_pair c2 c3 \<in> all_pairs (tied_at t s3)"
      using in2 in3 ne nee by (auto intro: two_in_all_pairs)
    then show ?thesis using spec c nee by auto
  next
    case nnn
    then show ?thesis using spec by simp
  qed
  then show ?thesis by (simp only: S_def s1_def s2_def s3_def)
qed

lemma identify_tie_pairs_short: "length t < 3 \<Longrightarrow> identify_tie_pairs t delta = {}"
  by (simp add: identify_tie_pairs_def sorted_by_score_def)

lemma tied_at_cong: "set t1 = set t2 \<Longrightarrow> tied_at t1 s = tied_at t2 s"
  by (simp add: tied_at_def)

section \<open>Properties of the results resolver\<close>

lemma resolve_riasec_code_key:
  "resolve_riasec_code t = concat (map fst (take 3 (sort_key code_key t)))"
proof -
  have "(\<lambda>x :: string \<times> int. (- snd x, fst x)) = code_key" by (simp add: code_key_def fun_eq_iff)
  then show ?thesis by (simp add: resolve_riasec_code_def)
qed

lemma ranks_before_key: "ranks_before x y \<longleftrightarrow> code_key x < code_key y"
  by (auto simp: ranks_before_def code_key_def less_prod_def)

lemma inj_code_key: "inj_on code_key A"
  by (auto simp: inj_on_def code_key_def prod_eq_iff)

lemma ranked_iff:
  "sorted_wrt ranks_before xs \<longleftrightarrow> sorted (map code_key xs) \<and> distinct (map code_key xs)"
proof -
  have "ranks_before = (\<lambda>x y. code_key x < code_key y)"
    by (intro ext) (rule ranks_before_key)
  then have "sorted_wrt ranks_before xs = sorted_wrt (<) (map code_key xs)"
    by (simp only: sorted_wrt_map)
  then show ?thesis by (simp only: strict_sorted_iff)
qed

lemma ranked_sort:
  assumes "distinct t"
  shows "sorted_wrt ranks_before (sort_key code_key t)"
  unfolding ranked_iff using assms by (simp add: distinct_map inj_code_key)

lemma ranked_unique:
  assumes d: "distinct t" and s: "set ordered = set t" and r: "sorted_wrt ranks_before ordered"
  shows "ordered = sort_key code_key t"
proof -
  have 1: "sorted (map code_key ordered)" "distinct (map code_key ordered)"
    using r by (simp_all add: ranked_iff)
  have 2: "sorted (map code_key (sort_key code_key t))"
    "distinct (map code_key (sort_key code_key t))"
    using ranked_sort[OF d] by (simp_all add: ranked_iff)
  have 3: "set (map code_key ordered) = set (map code_key (sort_key code_key t))" using s by simp
  have "map code_key ordered = map code_key (sort_key code_key t)"
    using sorted_distinct_set_unique[OF 1 2 3] .
  then show ?thesis using inj_code_key[of UNIV] by (simp add: inj_map_eq_map)
qed

lemma riasec_tally_length: "riasec_tally t \<Longrightarrow> length t = 6"
proof -
  assume a: "riasec_tally t"
  then have "card (set (map fst t)) = length (map fst t)"
    by (intro distinct_card) (simp add: riasec_tally_def)
  moreover have "card (set RIASEC) = 6" by (simp add: RIASEC_def)
  ultimately show ?thesis using a by (simp add: riasec_tally_def)
qed

lemma riasec_tally_distinct: "riasec_tally t \<Longrightarrow> distinct t"
  by (simp add: riasec_tally_def distinct_map)

lemma resolve_top_two:
  assumes rt: "riasec_tally t"
    and a: "(a, s) \<in> set t" and b: "(b, s) \<in> set t" and ab: "a < b"
    and rest: "\<forall>x \<in> set t. fst x \<noteq> a \<and> fst x \<noteq> b \<longrightarrow> snd x < s"
  shows "\<exists>c \<in> set (map fst t). resolve_riasec_code t = a @ b @ c"
proof -
  define others where "others = filter (\<lambda>x. x \<noteq> (a, s) \<and> x \<noteq> (b, s)) t"
  define ordered where "ordered = (a, s) # (b, s) # sort_key code_key others"
  have dk: "distinct (map fst t)" using rt by (simp add: riasec_tally_def)
  have dt: "distinct t" using rt by (rule riasec_tally_distinct)
  have key_unique: "x = (fst x, v)" if "x \<in> set t" "(fst x, v) \<in> set t" for x v
  proof -
    have "(fst x, snd x) \<in> set t" using that(1) by simp
    then have "snd x = v" using that(2) by (rule eq_key_imp_eq_value[OF dk])
    then show ?thesis by (simp add: prod_eq_iff)
  qed
  have others_lt: "snd x < s" if "x \<in> set others" for x
  proof -
    have x: "x \<in> set t" "x \<noteq> (a, s)" "x \<noteq> (b, s)" using that by (simp_all add: others_def)
    have "fst x \<noteq> a" using key_unique[OF x(1), of s] a x(2) by auto
    moreover have "fst x \<noteq> b" using key_unique[OF x(1), of s] b x(3) by auto
    ultimately show ?thesis using rest x(1) by blast
  qed
  have set_eq: "set ordered = set t"
    using a b by (auto simp: ordered_def others_def)
  have "sorted_wrt ranks_before (sort_key code_key others)"
    by (rule ranked_sort) (simp add: others_def dt)
  moreover have "ranks_before (a, s) (b, s)" using ab by (simp add: ranks_before_def)
  moreover have "\<forall>z \<in> set (sort_key code_key others). ranks_before (a, s) z \<and> ranks_before (b, s) z"
    using others_lt by (simp add: ranks_before_def)
  ultimately have sorted: "sorted_wrt ranks_before ordered"
    by (simp add: ordered_def)
  have eq: "sort_key code_key t = ordered"
    using ranked_unique[OF dt set_eq sorted] by simp
  have "length ordered = 6" using eq[symmetric] riasec_tally_length[OF rt] by simp
  then have "length (sort_key code_key others) = 4" by (simp add: ordered_def)
  then obtain y ys where ys: "sort_key code_key others = y # ys"
    by (cases "sort_key code_key others") auto
  then have "y \<in> set (sort_key code_key others)" by simp
  then have "y \<in> set t" by (simp add: others_def)
  moreover have "resolve_riasec_code t = a @ b @ fst y"
    by (simp add: resolve_riasec_code_key eq ordered_def ys)
  ultimately show ?thesis by auto
qed

lemma concat_letters: "\<forall>c \<in> set cs. length c = 1 \<Longrightarrow> length (concat cs) = length cs"
  by (induction cs) simp_all

lemma resolve_length:
  assumes rt: "riasec_tally t"
  shows "length (resolve_riasec_code t) = 3"
proof -
  define top where "top = map fst (take 3 (sort_key code_key t))"
  have letters: "length c = 1" if "c \<in> set RIASEC" for c
    using that by (auto simp: RIASEC_def)
  have keys: "set (map fst t) = set RIASEC" using rt by (simp add: riasec_tally_def)
  have "set (take 3 (sort_key code_key t)) \<subseteq> set t"
    using set_take_subset[of 3 "sort_key code_key t"] by simp
  then have "set top \<subseteq> set (map fst t)" unfolding top_def by (simp add: image_mono)
  then have "\<forall>c \<in> set top. length c = 1" using letters keys by blast
  then have "length (concat top) = length top" by (rule concat_letters)
  moreover have "length top = 3" using riasec_tally_length[OF rt] by (simp add: top_def)
  ultimately show ?thesis by (simp add: resolve_riasec_code_key top_def)
qed

section \<open>Properties of the score calculation and the question selection\<close>

lemma map_of_setitem: "map_of (setitem d k v) = (map_of d)(k \<mapsto> v)"
  by (induction d k v rule: setitem.induct) (auto simp: fun_eq_iff)

lemma keys_setitem: "k \<in> set (map fst d) \<Longrightarrow> map fst (setitem d k v) = map fst d"
  by (induction d k v rule: setitem.induct) auto

lemma set_setitem: "set (setitem d k v) \<subseteq> insert (k, v) (set d)"
  by (induction d k v rule: setitem.induct) auto

lemma sum_setitem:
  "map_of d k = Some n \<Longrightarrow> sum_list (map snd (setitem d k v)) = sum_list (map snd d) - n + v"
  for d :: "('k \<times> int) list"
  by (induction d k v rule: setitem.induct) (auto split: if_splits)

lemma counter_get_add:
  "counter_get (counter_add k v c) name = counter_get c name + (if name = k then v else 0)"
  by (simp add: counter_get_def counter_add_def map_of_setitem)

lemma nonneg_counter_get: "nonneg c \<Longrightarrow> 0 \<le> counter_get c k"
  by (fastforce simp: nonneg_def counter_get_def split: option.splits dest: map_of_SomeD)

lemma nonneg_counter_add:
  assumes "nonneg c" "0 \<le> v"
  shows "nonneg (counter_add k v c)"
proof -
  have "0 \<le> counter_get c k + v" using nonneg_counter_get[OF assms(1), of k] assms(2) by simp
  then show ?thesis
    using assms(1) set_setitem[of c k "counter_get c k + v"]
    by (auto simp: nonneg_def counter_add_def)
qed

lemma nonneg_fold_counter_add:
  "nonneg c \<Longrightarrow> 0 \<le> v \<Longrightarrow> nonneg (fold (\<lambda>a b. counter_add a v b) ks c)"
  by (induction ks arbitrary: c) (simp_all add: nonneg_counter_add)

lemma nonneg_fold_counter_add_pairs:
  "nonneg c \<Longrightarrow> nonneg kvs \<Longrightarrow> nonneg (fold (\<lambda>(k, v) b. counter_add k v b) kvs c)"
proof (induction kvs arbitrary: c)
  case Nil
  then show ?case by simp
next
  case (Cons kv kvs)
  have "0 \<le> snd kv" "nonneg kvs" using Cons.prems(2) by (simp_all add: nonneg_def)
  then show ?case
    using Cons.IH[of "counter_add (fst kv) (snd kv) c"] Cons.prems(1)
    by (simp add: nonneg_counter_add case_prod_unfold)
qed

lemma nonneg_enrich: "nonneg (enrich_from_text env text)"
proof -
  have "nonneg (fold (\<lambda>(patt, apt_list) boosts.
                if re_search env patt tx
                then fold (\<lambda>a boosts'. counter_add a 1 boosts') apt_list boosts
                else boosts) tbl c)" if "nonneg c" for tx tbl c
    using that by (induction tbl arbitrary: c) (auto simp: nonneg_fold_counter_add)
  moreover have "nonneg []" by (simp add: nonneg_def)
  ultimately show ?thesis by (simp add: enrich_from_text_def Let_def)
qed

lemma nonneg_apply_enrichment: "nonneg c \<Longrightarrow> nonneg (apply_enrichment env q c)"
  by (simp add: apply_enrichment_def nonneg_fold_counter_add_pairs nonneg_enrich
      split: option.splits)

lemma nonneg_apply_aptitude: "nonneg c \<Longrightarrow> 0 \<le> w \<Longrightarrow> nonneg (apply_aptitude (k, w) c)"
  by (simp add: apply_aptitude_def nonneg_fold_counter_add nonneg_counter_add split: option.splits)

lemma nonneg_fold_apply_aptitude:
  "nonneg c \<Longrightarrow> nonneg apts \<Longrightarrow> nonneg (fold apply_aptitude apts c)"
proof (induction apts arbitrary: c)
  case Nil
  then show ?case by simp
next
  case (Cons kw apts)
  have "nonneg (apply_aptitude kw c)"
    using Cons.prems nonneg_apply_aptitude[of c "snd kw" "fst kw"] by (simp add: nonneg_def)
  moreover have "nonneg apts" using Cons.prems(2) by (simp add: nonneg_def)
  ultimately show ?case using Cons.IH by simp
qed

lemma contains_hashable: "hashable v \<Longrightarrow> \<exists>b. contains d v = Inr b"
  by (cases v) auto

lemma contains_unhashable: "\<not> hashable v \<Longrightarrow> contains d v = Inl TypeError"
  by (cases v) simp_all

lemma contains_True:
  "contains d v = Inr True \<longleftrightarrow> (\<exists>s. v = JString s \<and> s \<in> set (map fst d))"
  by (cases v) auto

lemma score_answer_raises:
  assumes "label_raises env entry"
  shows "score_answer env u entry st = Inl TypeError"
proof -
  obtain k sel where e: "entry = (k, sel)" by (cases entry)
  obtain rs as where st: "st = (rs, as)" by (cases st)
  from assms obtain n q where n: "py_int env k = Some n" "resolve_question env n = Some q"
    "\<not> hashable sel"
    by (auto simp: label_raises_def e split: option.splits)
  show ?thesis
    unfolding score_answer_def e st
    using n(1,2) contains_unhashable[OF n(3), of "get_options q"]
    by (simp add: Let_def)
qed

lemma score_answer_skip:
  assumes "resolve_answer env entry = None" and "\<not> label_raises env entry"
  shows "score_answer env u entry st = Inr st"
proof -
  obtain k sel where e: "entry = (k, sel)" by (cases entry)
  obtain rs as where st: "st = (rs, as)" by (cases st)
  show ?thesis
  proof (cases "py_int env k")
    case None
    then show ?thesis by (simp add: score_answer_def e st)
  next
    case (Some n)
    show ?thesis
    proof (cases "resolve_question env n")
      case None
      then show ?thesis using Some by (simp add: score_answer_def e st)
    next
      case q: (Some q)
      have h: "hashable sel" using assms(2) Some q by (simp add: label_raises_def e)
      have "contains (get_options q) sel \<noteq> Inr True"
      proof
        assume "contains (get_options q) sel = Inr True"
        then obtain s where s: "sel = JString s" "s \<in> set (map fst (get_options q))"
          by (auto simp: contains_True)
        then have "map_of (get_options q) s \<noteq> None" by (simp add: map_of_eq_None_iff)
        then show False using assms(1) Some q s(1)
          by (auto simp: resolve_answer_def e split: option.splits)
      qed
      moreover obtain b where "contains (get_options q) sel = Inr b"
        using contains_hashable[OF h, of "get_options q"] by blast
      ultimately have "contains (get_options q) sel = Inr False" by (cases b) simp_all
      then show ?thesis using Some q by (simp add: score_answer_def e st)
    qed
  qed
qed

lemma getitem_in_keys:
  "k \<in> set (map fst d) \<Longrightarrow> getitem d k = Inr (counter_get d k)"
  for d :: tally
  by (auto simp: getitem_def counter_get_def map_of_eq_None_iff split: option.splits)

lemma resolve_answer_Some:
  assumes "resolve_answer env entry = Some (q, option)"
  shows "\<exists>n sel. snd entry = JString sel \<and> py_int env (fst entry) = Some n
      \<and> resolve_question env n = Some q \<and> map_of (get_options q) sel = Some option"
  using assms by (auto simp: resolve_answer_def split: option.splits json.splits)

lemma score_answer_hit:
  assumes "resolve_answer env entry = Some (q, option)"
  shows "score_answer env u entry (rs, as) =
     Inr (bump_riasec option rs,
          (if u then apply_enrichment env q else id) (fold apply_aptitude (get_aptitudes option) as))"
proof -
  obtain k lab where e: "entry = (k, lab)" by (cases entry)
  from resolve_answer_Some[OF assms] obtain n sel where n: "lab = JString sel"
    "py_int env k = Some n" "resolve_question env n = Some q"
    "map_of (get_options q) sel = Some option"
    by (auto simp: e)
  then have sel: "sel \<in> set (map fst (get_options q))"
    by (metis map_of_eq_None_iff option.distinct(1) set_map)
  then obtain d where d: "q_options q = Some d" "get_options q = d"
    by (cases "q_options q") (auto simp: get_options_def)
  have g: "getitem d sel = Inr option" using n(4) d by (simp add: getitem_def)
  have c: "contains d (JString sel) = Inr True" using sel d by simp
  show ?thesis
    unfolding score_answer_def e n(1)
    using n(2,3) d g c
    by (simp add: Let_def bump_riasec_def getitem_in_keys split: option.splits)
qed

lemma resolve_answer_not_raises: "resolve_answer env entry = Some qo \<Longrightarrow> \<not> label_raises env entry"
  by (cases qo) (auto simp: label_raises_def dest!: resolve_answer_Some)

lemma score_answers_append:
  "score_answers env u (xs @ ys) st =
     (case score_answers env u xs st of Inl e \<Rightarrow> Inl e | Inr st' \<Rightarrow> score_answers env u ys st')"
  by (induction xs arbitrary: st) (auto split: sum.splits)

lemma score_answer_returns:
  assumes "\<not> label_raises env entry"
  shows "\<exists>st'. score_answer env u entry st = Inr st'"
proof (cases "resolve_answer env entry")
  case None
  then show ?thesis using assms by (simp add: score_answer_skip)
next
  case (Some qo)
  then show ?thesis using score_answer_hit[of env entry "fst qo" "snd qo" u "fst st" "snd st"] by simp
qed

lemma score_answers_returns:
  assumes "\<forall>entry \<in> set answers. \<not> label_raises env entry"
  shows "\<exists>st'. score_answers env u answers st = Inr st'"
  using assms
proof (induction answers arbitrary: st)
  case Nil
  then show ?case by simp
next
  case (Cons entry answers)
  obtain st' where "score_answer env u entry st = Inr st'"
    using score_answer_returns[of env entry u st] Cons.prems by auto
  then show ?case using Cons.IH[of st'] Cons.prems by simp
qed

lemma score_answers_raises:
  assumes "\<exists>entry \<in> set answers. label_raises env entry"
  shows "score_answers env u answers st = Inl TypeError"
  using assms
proof (induction answers arbitrary: st)
  case Nil
  then show ?case by simp
next
  case (Cons entry answers)
  show ?case
  proof (cases "label_raises env entry")
    case True
    then show ?thesis by (simp add: score_answer_raises)
  next
    case False
    then obtain st' where "score_answer env u entry st = Inr st'"
      using score_answer_returns by blast
    moreover have "\<exists>entry \<in> set answers. label_raises env entry" using Cons.prems False by auto
    ultimately show ?thesis using Cons.IH[of st'] by simp
  qed
qed

lemma bump_riasec_keys: "map fst (bump_riasec option rs) = map fst rs"
  by (simp add: bump_riasec_def keys_setitem split: option.splits)

lemma bump_riasec_nonneg: "nonneg rs \<Longrightarrow> nonneg (bump_riasec option rs)"
  unfolding bump_riasec_def counter_add_def[symmetric]
  by (simp add: nonneg_counter_add split: option.splits)

lemma bump_riasec_sum:
  "sum_list (map snd (bump_riasec option rs)) =
     sum_list (map snd rs)
       + (case o_riasec option of None \<Rightarrow> 0 | Some code \<Rightarrow> if code \<in> set (map fst rs) then 1 else 0)"
proof (cases "o_riasec option")
  case None
  then show ?thesis by (simp add: bump_riasec_def)
next
  case (Some code)
  show ?thesis
  proof (cases "code \<in> set (map fst rs)")
    case True
    then obtain n where n: "map_of rs code = Some n"
      by (metis map_of_eq_None_iff not_Some_eq set_map)
    then show ?thesis using Some True sum_setitem[OF n, of "n + 1"]
      by (simp add: bump_riasec_def counter_get_def)
  next
    case False
    then show ?thesis using Some by (simp add: bump_riasec_def)
  qed
qed

lemma resolve_question_in_bank:
  "resolve_question env n = Some q \<Longrightarrow> q \<in> set (QUESTIONS env @ TIE_BREAKER_QUESTIONS env)"
  by (auto simp: resolve_question_def Let_def find_Some_iff split: if_splits)

lemma resolve_answer_in_bank:
  assumes "resolve_answer env entry = Some (q, option)"
  shows "q \<in> set (QUESTIONS env @ TIE_BREAKER_QUESTIONS env) \<and> option \<in> snd ` set (get_options q)"
proof -
  from resolve_answer_Some[OF assms] obtain n sel where
    "resolve_question env n = Some q" "map_of (get_options q) sel = Some option"
    by blast
  then show ?thesis
    using resolve_question_in_bank[of env n q] map_of_SomeD[of "get_options q" sel option]
    by force
qed

lemma score_answers_invariant:
  assumes "map fst rs = RIASEC" "nonneg rs" "\<forall>entry \<in> set answers. \<not> label_raises env entry"
  shows "\<exists>rs' as'. score_answers env u answers (rs, as) = Inr (rs', as')
      \<and> map fst rs' = RIASEC \<and> nonneg rs'
      \<and> sum_list (map snd rs') = sum_list (map snd rs) + int (length (filter (carries_riasec env) answers))
      \<and> (nonneg_weights env \<longrightarrow> nonneg as \<longrightarrow> nonneg as')"
  using assms
proof (induction answers arbitrary: rs as)
  case Nil
  then show ?case by simp
next
  case (Cons entry answers)
  show ?case
  proof (cases "resolve_answer env entry")
    case None
    then have "score_answer env u entry (rs, as) = Inr (rs, as)"
      using Cons.prems(3) by (simp add: score_answer_skip)
    moreover have "\<not> carries_riasec env entry" using None by (simp add: carries_riasec_def)
    moreover have "\<forall>entry \<in> set answers. \<not> label_raises env entry" using Cons.prems(3) by simp
    ultimately show ?thesis using Cons.IH[OF Cons.prems(1,2), of as] by simp
  next
    case (Some qo)
    obtain q option where qo: "qo = (q, option)" by (cases qo)
    define rs1 where "rs1 = bump_riasec option rs"
    define as1 where "as1 = (if u then apply_enrichment env q else id)
        (fold apply_aptitude (get_aptitudes option) as)"
    have step: "score_answer env u entry (rs, as) = Inr (rs1, as1)"
      using score_answer_hit[of env entry q option u rs as] Some qo by (simp add: rs1_def as1_def)
    have k1: "map fst rs1 = RIASEC" using Cons.prems(1) by (simp add: rs1_def bump_riasec_keys)
    have n1: "nonneg rs1" using Cons.prems(2) by (simp add: rs1_def bump_riasec_nonneg)
    have s1: "sum_list (map snd rs1) = sum_list (map snd rs) + (if carries_riasec env entry then 1 else 0)"
      using Some qo Cons.prems(1)
      by (simp add: rs1_def bump_riasec_sum carries_riasec_def split: option.splits)
    have a1: "nonneg as1" if w: "nonneg_weights env" and a: "nonneg as"
    proof -
      have "nonneg (get_aptitudes option)"
        using resolve_answer_in_bank[of env entry q option] Some qo w
        unfolding nonneg_weights_def nonneg_def by fastforce
      then have "nonneg (fold apply_aptitude (get_aptitudes option) as)"
        using a by (simp add: nonneg_fold_apply_aptitude)
      then show ?thesis by (simp add: as1_def nonneg_apply_enrichment)
    qed
    obtain rs' as' where r: "score_answers env u answers (rs1, as1) = Inr (rs', as')"
      "map fst rs' = RIASEC" "nonneg rs'"
      "sum_list (map snd rs') = sum_list (map snd rs1) + int (length (filter (carries_riasec env) answers))"
      "nonneg_weights env \<longrightarrow> nonneg as1 \<longrightarrow> nonneg as'"
      using Cons.IH[OF k1 n1, of as1] Cons.prems(3) by auto
    show ?thesis
      using step r s1 a1 by auto
  qed
qed

lemma fold_counter_add_get:
  "distinct ks \<Longrightarrow>
   counter_get (fold (\<lambda>k c. counter_add k w c) ks c) name
     = counter_get c name + (if name \<in> set ks then w else 0)"
  by (induction ks arbitrary: c) (simp_all add: counter_get_add)

lemma OLD_TO_NEW_distinct:
  assumes "map_of OLD_TO_NEW_APT_MAP k = Some ns"
  shows "distinct ns"
proof -
  have "\<forall>kn \<in> set OLD_TO_NEW_APT_MAP. distinct (snd kn)" by (simp add: OLD_TO_NEW_APT_MAP_def)
  moreover have "(k, ns) \<in> set OLD_TO_NEW_APT_MAP" using assms by (rule map_of_SomeD)
  ultimately show ?thesis by fastforce
qed

lemma get_questions_fold:
  "fold (\<lambda>pair new_qs.
             if pair \<in> already_asked then new_qs
             else
               let matched = filter (\<lambda>q. q_pair q = Some pair) (TIE_BREAKER_QUESTIONS env) in
               if matched \<noteq> [] then new_qs @ take 2 matched else new_qs)
       pairs acc
   = acc @ concat (map (pair_questions env) (filter (\<lambda>p. p \<notin> already_asked) pairs))"
  by (induction pairs arbitrary: acc) (simp_all add: pair_questions_def Let_def)

lemma pair_questions_pair: "q \<in> set (pair_questions env p) \<Longrightarrow> q_pair q = Some p"
  by (auto simp: pair_questions_def dest: in_set_takeD)

lemma skipped_answer:
  assumes "py_int env qnum_key = Some qnum"
    and "resolve_question env qnum = None
       \<or> (\<exists>question. resolve_question env qnum = Some question
             \<and> contains (get_options question) selected = Inr False)"
  shows "calculate_scores env (before @ (qnum_key, selected) # after) u
       = calculate_scores env (before @ after) u"
proof -
  have skip: "score_answer env u (qnum_key, selected) st = Inr st" for st
    using assms by (cases st) (auto simp: score_answer_def)
  have "score_answers env u (before @ (qnum_key, selected) # after) st
      = score_answers env u (before @ after) st" for st
    by (simp add: score_answers_append skip split: sum.splits)
  then show ?thesis by (simp add: calculate_scores_def)
qed

section \<open>The tie-break selector and the results resolver against the specification\<close>

text \<open>
  C1. On every RIASEC tally and for every integer delta, \<^verbatim>\<open>identify_tie_pairs\<close> returns
  exactly the set the specification's steps build. The categories are ranked by score
  descending, equal scores in the key order of the tally; there is one such ranking, and
  on it the set holds the pair of the first and second category when their gap is below
  delta, the pair of the second and third when theirs is, and, when more than one category
  has the third score, every pair among the categories that have it.
\<close>

theorem identify_tie_pairs_refines_spec:
  assumes "riasec_tally t"
  shows "(\<exists>ranked. spec_ranking t ranked)
    \<and> (\<forall>ranked. spec_ranking t ranked \<longrightarrow>
          identify_tie_pairs t delta = spec_tie_pairs ranked t delta)"
proof (intro conjI allI impI)
  show "\<exists>ranked. spec_ranking t ranked" using spec_ranking_sorted_by_score by blast
  have d: "distinct (map fst t)" using assms by (simp add: riasec_tally_def)
  have l: "3 \<le> length t" using riasec_tally_length[OF assms] by simp
  show "identify_tie_pairs t delta = spec_tie_pairs ranked t delta"
    if "spec_ranking t ranked" for ranked
    using identify_tie_pairs_spec[OF d l, of delta] spec_ranking_unique[OF that] by simp
qed

theorem identify_tie_pairs_refines_spec_witness:
  "riasec_tally [(''R'', 0), (''I'', 0), (''A'', 5), (''S'', 3), (''E'', 3), (''C'', 1)]
   \<and> spec_ranking [(''R'', 0), (''I'', 0), (''A'', 5), (''S'', 3), (''E'', 3), (''C'', 1)]
        [(''A'', 5), (''S'', 3), (''E'', 3), (''C'', 1), (''R'', 0), (''I'', 0)]
   \<and> identify_tie_pairs [(''R'', 0), (''I'', 0), (''A'', 5), (''S'', 3), (''E'', 3), (''C'', 1)] 0
       = {''E-S''}
   \<and> identify_tie_pairs [(''R'', 0), (''I'', 0), (''A'', 5), (''S'', 3), (''E'', 3), (''C'', 1)] 3
       = {''A-S'', ''E-S''}"
proof -
  let ?t = "[(''R'', 0), (''I'', 0), (''A'', 5), (''S'', 3), (''E'', 3), (''C'', 1)] :: tally"
  let ?r = "[(''A'', 5), (''S'', 3), (''E'', 3), (''C'', 1), (''R'', 0), (''I'', 0)] :: tally"
  have h: "riasec_tally ?t" by code_simp
  have r: "spec_ranking ?t ?r" by code_simp
  have 0: "spec_tie_pairs ?r ?t 0 = {''E-S''}" by code_simp
  have 3: "spec_tie_pairs ?r ?t 3 = {''A-S'', ''E-S''}" by code_simp
  have "identify_tie_pairs ?t 0 = {''E-S''}"
    using identify_tie_pairs_refines_spec[OF h, of 0] r 0 by simp
  moreover have "identify_tie_pairs ?t 3 = {''A-S'', ''E-S''}"
    using identify_tie_pairs_refines_spec[OF h, of 3] r 3 by simp
  ultimately show ?thesis using h r by blast
qed

text \<open>
  C3, as the specification states it, fails: with \<open>delta = 2\<close> the tallies
  \<open>{R:5, I:5, A:4, S:4, E:0, C:0}\<close> and \<open>{I:5, R:5, A:4, S:4, E:0, C:0}\<close> hold the same
  associations and give different sets.
\<close>

theorem tie_pairs_key_order_counterexample:
  "same_associations
      [(''R'', 5), (''I'', 5), (''A'', 4), (''S'', 4), (''E'', 0), (''C'', 0)]
      [(''I'', 5), (''R'', 5), (''A'', 4), (''S'', 4), (''E'', 0), (''C'', 0)]
   \<and> identify_tie_pairs [(''R'', 5), (''I'', 5), (''A'', 4), (''S'', 4), (''E'', 0), (''C'', 0)] 2
     = {''I-R'', ''A-I'', ''A-S''}
   \<and> identify_tie_pairs [(''I'', 5), (''R'', 5), (''A'', 4), (''S'', 4), (''E'', 0), (''C'', 0)] 2
     = {''I-R'', ''A-R'', ''A-S''}
   \<and> identify_tie_pairs [(''R'', 5), (''I'', 5), (''A'', 4), (''S'', 4), (''E'', 0), (''C'', 0)] 2
     \<noteq> identify_tie_pairs [(''I'', 5), (''R'', 5), (''A'', 4), (''S'', 4), (''E'', 0), (''C'', 0)] 2"
  by code_simp

text \<open>
  C3, amended. For every delta of at most 1 (the configured default is 1), two tallies that
  hold the same category-to-score associations in different key orders give the same set
  of pairs.
\<close>

theorem tie_pairs_key_order_low_delta:
  assumes "same_associations t1 t2" and "delta \<le> 1"
  shows "identify_tie_pairs t1 delta = identify_tie_pairs t2 delta"
proof -
  have d1: "distinct (map fst t1)" and d2: "distinct (map fst t2)" and s: "set t1 = set t2"
    using assms(1) by (simp_all add: same_associations_def)
  have "distinct t1" "distinct t2" using d1 d2 by (simp_all add: distinct_map)
  then have m: "mset t1 = mset t2" using s by (simp add: set_eq_iff_mset_eq_distinct)
  then have l: "length t1 = length t2" by (rule mset_eq_length)
  have sc: "map snd (sorted_by_score t1) = map snd (sorted_by_score t2)"
    by (rule sorted_scores_mset[OF m])
  show ?thesis
  proof (cases "length t1 < 3")
    case True
    then show ?thesis using l by (simp add: identify_tie_pairs_short)
  next
    case False
    then have len: "3 \<le> length t1" "3 \<le> length t2" using l by simp_all
    have "snd (sorted_by_score t1 ! i) = snd (sorted_by_score t2 ! i)" if "i < 3" for i
    proof -
      have "i < length (sorted_by_score t1)" "i < length (sorted_by_score t2)"
        using that len by (simp_all add: sorted_by_score_def)
      then show ?thesis using arg_cong[OF sc, of "\<lambda>xs. xs ! i"] by simp
    qed
    then have e: "snd (sorted_by_score t1 ! 0) = snd (sorted_by_score t2 ! 0)"
      "snd (sorted_by_score t1 ! 1) = snd (sorted_by_score t2 ! 1)"
      "snd (sorted_by_score t1 ! 2) = snd (sorted_by_score t2 ! 2)" by simp_all
    show ?thesis
      unfolding identify_tie_pairs_low_delta[OF d1 len(1) assms(2)]
        identify_tie_pairs_low_delta[OF d2 len(2) assms(2)] e tied_at_cong[OF s] ..
  qed
qed

theorem tie_pairs_key_order_low_delta_witness:
  "same_associations
      [(''R'', 5), (''I'', 5), (''A'', 4), (''S'', 4), (''E'', 0), (''C'', 0)]
      [(''I'', 5), (''R'', 5), (''S'', 4), (''A'', 4), (''E'', 0), (''C'', 0)]
   \<and> (1 :: int) \<le> 1
   \<and> identify_tie_pairs [(''I'', 5), (''R'', 5), (''S'', 4), (''A'', 4), (''E'', 0), (''C'', 0)] 1
     = {''I-R'', ''A-S''}"
proof -
  have h: "same_associations
      [(''R'', 5), (''I'', 5), (''A'', 4), (''S'', 4), (''E'', 0), (''C'', 0)]
      [(''I'', 5), (''R'', 5), (''S'', 4), (''A'', 4), (''E'', 0), (''C'', 0)]"
    by code_simp
  have "identify_tie_pairs [(''R'', 5), (''I'', 5), (''A'', 4), (''S'', 4), (''E'', 0), (''C'', 0)] 1
     = {''I-R'', ''A-S''}"
    by code_simp
  then show ?thesis using h tie_pairs_key_order_low_delta[OF h, of 1] by simp
qed

text \<open>
  C4. On every RIASEC tally, \<^verbatim>\<open>resolve_riasec_code\<close> returns the letters of the first
  three categories of the one ordering of the six by descending score, ascending letter on
  equal scores; the code has three letters; and when exactly two categories share the
  highest score, the smaller letter of the two comes first and the other second.
\<close>

theorem resolve_riasec_code_spec:
  assumes rt: "riasec_tally t"
  shows "(\<exists>ordered. set ordered = set t \<and> sorted_wrt ranks_before ordered)
    \<and> (\<forall>ordered. set ordered = set t \<and> sorted_wrt ranks_before ordered \<longrightarrow>
          resolve_riasec_code t = concat (map fst (take 3 ordered)))
    \<and> length (resolve_riasec_code t) = 3
    \<and> (\<forall>a b s. (a, s) \<in> set t \<and> (b, s) \<in> set t \<and> a < b
          \<and> (\<forall>x \<in> set t. fst x \<noteq> a \<and> fst x \<noteq> b \<longrightarrow> snd x < s) \<longrightarrow>
          (\<exists>c \<in> set (map fst t). resolve_riasec_code t = a @ b @ c))"
proof (intro conjI allI impI)
  have dt: "distinct t" using rt by (rule riasec_tally_distinct)
  show "\<exists>ordered. set ordered = set t \<and> sorted_wrt ranks_before ordered"
    using ranked_sort[OF dt] by (intro exI[of _ "sort_key code_key t"]) simp
  show "length (resolve_riasec_code t) = 3" by (rule resolve_length[OF rt])
  show "resolve_riasec_code t = concat (map fst (take 3 ordered))"
    if "set ordered = set t \<and> sorted_wrt ranks_before ordered" for ordered
    using ranked_unique[OF dt, of ordered] that by (simp add: resolve_riasec_code_key)
  show "\<exists>c \<in> set (map fst t). resolve_riasec_code t = a @ b @ c"
    if "(a, s) \<in> set t \<and> (b, s) \<in> set t \<and> a < b
          \<and> (\<forall>x \<in> set t. fst x \<noteq> a \<and> fst x \<noteq> b \<longrightarrow> snd x < s)" for a b s
    using resolve_top_two[OF rt, of a s b] that by blast
qed

theorem resolve_riasec_code_spec_witness:
  "riasec_tally [(''R'', 5), (''I'', 5), (''A'', 4), (''S'', 2), (''E'', 1), (''C'', 0)]
   \<and> sorted_wrt ranks_before
       [(''I'', 5), (''R'', 5), (''A'', 4), (''S'', 2), (''E'', 1), (''C'', 0)]
   \<and> ''I'' < ''R''
   \<and> resolve_riasec_code [(''R'', 5), (''I'', 5), (''A'', 4), (''S'', 2), (''E'', 1), (''C'', 0)]
       = concat (map fst (take 3
           [(''I'', 5), (''R'', 5), (''A'', 4), (''S'', 2), (''E'', 1), (''C'', 0 :: int)]))
   \<and> (\<exists>c \<in> set (map fst [(''R'', 5 :: int), (''I'', 5), (''A'', 4), (''S'', 2), (''E'', 1), (''C'', 0)]).
        resolve_riasec_code [(''R'', 5), (''I'', 5), (''A'', 4), (''S'', 2), (''E'', 1), (''C'', 0)]
          = ''I'' @ ''R'' @ c)"
proof -
  let ?t = "[(''R'', 5), (''I'', 5), (''A'', 4), (''S'', 2), (''E'', 1), (''C'', 0)] :: tally"
  let ?o = "[(''I'', 5), (''R'', 5), (''A'', 4), (''S'', 2), (''E'', 1), (''C'', 0)] :: tally"
  have h: "riasec_tally ?t" by code_simp
  have s: "set ?o = set ?t" by code_simp
  have r: "sorted_wrt ranks_before ?o" by code_simp
  have lt: "''I'' < ''R''" by code_simp
  have top: "(''I'', 5) \<in> set ?t \<and> (''R'', 5) \<in> set ?t \<and> ''I'' < ''R''
      \<and> (\<forall>x \<in> set ?t. fst x \<noteq> ''I'' \<and> fst x \<noteq> ''R'' \<longrightarrow> snd x < 5)"
    by code_simp
  note spec = resolve_riasec_code_spec[OF h]
  have "resolve_riasec_code ?t = concat (map fst (take 3 ?o))" using spec s r by blast
  moreover have "\<exists>c \<in> set (map fst ?t). resolve_riasec_code ?t = ''I'' @ ''R'' @ c"
    using spec top by blast
  ultimately show ?thesis using h r lt by blast
qed

text \<open>
  C10. The rule for a multi-way tie at the third score does not look at delta: on a tally
  of at least three categories in which more than one category has the third-ranked score
  (the third of the scores in descending order), the result holds every letter-sorted pair
  among the categories that have it, for every delta, also 0 or negative.
\<close>

theorem third_place_rule_ignores_delta:
  assumes "3 \<le> length t" and "1 < card (tied_at t (third_ranked_score t))"
  shows "all_pairs (tied_at t (third_ranked_score t)) \<subseteq> identify_tie_pairs t delta"
proof
  fix p assume "p \<in> all_pairs (tied_at t (third_ranked_score t))"
  then obtain a b where "p = spec_pair a b" "a \<in> tied_at t (snd (sorted_by_score t ! 2))"
    "b \<in> tied_at t (snd (sorted_by_score t ! 2))" "a \<noteq> b"
    unfolding all_pairs_def third_ranked_score_sorted[OF assms(1)] by auto
  then show "p \<in> identify_tie_pairs t delta"
    using identify_tie_pairs_third_place[OF assms(1)] by simp
qed

theorem third_place_rule_ignores_delta_witness:
  "3 \<le> length [(''R'', 0 :: int), (''I'', 0), (''A'', 5), (''S'', 3), (''E'', 3), (''C'', 1)]
   \<and> third_ranked_score [(''R'', 0), (''I'', 0), (''A'', 5), (''S'', 3), (''E'', 3), (''C'', 1)] = 3
   \<and> tied_at [(''R'', 0), (''I'', 0), (''A'', 5), (''S'', 3), (''E'', 3), (''C'', 1)] 3
       = {''S'', ''E''}
   \<and> ''E-S'' \<in> identify_tie_pairs
        [(''R'', 0), (''I'', 0), (''A'', 5), (''S'', 3), (''E'', 3), (''C'', 1)] 0
   \<and> ''E-S'' \<in> identify_tie_pairs
        [(''R'', 0), (''I'', 0), (''A'', 5), (''S'', 3), (''E'', 3), (''C'', 1)] (- 5)"
proof -
  let ?t = "[(''R'', 0), (''I'', 0), (''A'', 5), (''S'', 3), (''E'', 3), (''C'', 1)] :: tally"
  have l: "3 \<le> length ?t" by simp
  have s: "third_ranked_score ?t = 3" by code_simp
  have t: "tied_at ?t 3 = {''S'', ''E''}" by code_simp
  have c: "1 < card (tied_at ?t (third_ranked_score ?t))" unfolding s t by simp
  have p: "''E-S'' \<in> all_pairs (tied_at ?t (third_ranked_score ?t))"
    unfolding s t by code_simp
  show ?thesis
    using l s t p third_place_rule_ignores_delta[OF l c, of 0]
      third_place_rule_ignores_delta[OF l c, of "- 5"] by blast
qed

section \<open>The scoring engine and the question selection against the specification\<close>

text \<open>
  C2. For every Answer Record, with or without text enrichment, the tallies
  \<^verbatim>\<open>calculate_scores\<close> returns are a RIASEC tally over the six letters whose values are
  all at least 0 and sum to the number of entries that are answered questions whose
  selected option carries a RIASEC code, and an Aptitude Tally whose values are all at
  least 0, the weights of the banks being at least 0. It returns tallies exactly when no
  entry that refers to a question of the banks has a list or a dict as its label.
\<close>

theorem calculate_scores_tallies:
  "((\<exists>tallies. calculate_scores env answers u = Inr tallies)
      \<longleftrightarrow> (\<forall>entry \<in> set answers. \<not> label_raises env entry))
   \<and> (\<forall>riasec aptitude. calculate_scores env answers u = Inr (riasec, aptitude) \<longrightarrow>
        map fst riasec = RIASEC
      \<and> (\<forall>x \<in> set riasec. 0 \<le> snd x)
      \<and> sum_list (map snd riasec) = int (length (filter (carries_riasec env) answers))
      \<and> (nonneg_weights env \<longrightarrow> (\<forall>x \<in> set aptitude. 0 \<le> snd x)))"
proof -
  let ?rs = "map (\<lambda>c. (c, 0 :: int)) RIASEC"
  let ?as = "map (\<lambda>a. (a, 0 :: int)) NEW_APTITUDES"
  have calc: "calculate_scores env answers u = score_answers env u answers (?rs, ?as)"
    by (simp add: calculate_scores_def)
  have k: "map fst ?rs = RIASEC" by (simp add: comp_def)
  have n: "nonneg ?rs" "nonneg ?as" by (auto simp: nonneg_def)
  have z: "sum_list (map snd ?rs) = 0" by (simp add: comp_def)
  have returns: "(\<exists>tallies. calculate_scores env answers u = Inr tallies)
      \<longleftrightarrow> (\<forall>entry \<in> set answers. \<not> label_raises env entry)"
  proof
    assume ret: "\<exists>tallies. calculate_scores env answers u = Inr tallies"
    show "\<forall>entry \<in> set answers. \<not> label_raises env entry"
    proof (rule ccontr)
      assume "\<not> (\<forall>entry \<in> set answers. \<not> label_raises env entry)"
      then have "\<exists>entry \<in> set answers. label_raises env entry" by blast
      then have "score_answers env u answers (?rs, ?as) = Inl TypeError"
        by (rule score_answers_raises)
      then show False using ret unfolding calc by simp
    qed
  next
    assume "\<forall>entry \<in> set answers. \<not> label_raises env entry"
    then show "\<exists>tallies. calculate_scores env answers u = Inr tallies"
      unfolding calc by (rule score_answers_returns)
  qed
  have props: "map fst riasec = RIASEC
      \<and> (\<forall>x \<in> set riasec. 0 \<le> snd x)
      \<and> sum_list (map snd riasec) = int (length (filter (carries_riasec env) answers))
      \<and> (nonneg_weights env \<longrightarrow> (\<forall>x \<in> set aptitude. 0 \<le> snd x))"
    if r: "calculate_scores env answers u = Inr (riasec, aptitude)" for riasec aptitude
  proof -
    have h: "\<forall>entry \<in> set answers. \<not> label_raises env entry" using returns r by blast
    obtain rs' as' where i: "score_answers env u answers (?rs, ?as) = Inr (rs', as')"
      "map fst rs' = RIASEC" "nonneg rs'"
      "sum_list (map snd rs') = sum_list (map snd ?rs) + int (length (filter (carries_riasec env) answers))"
      "nonneg_weights env \<longrightarrow> nonneg ?as \<longrightarrow> nonneg as'"
      using score_answers_invariant[OF k n(1) h, of u ?as] by blast
    have e: "riasec = rs'" "aptitude = as'" using r i(1) unfolding calc by simp_all
    have "\<forall>x \<in> set rs'. 0 \<le> snd x" using i(3) by (simp add: nonneg_def)
    moreover have "sum_list (map snd rs') = int (length (filter (carries_riasec env) answers))"
      using i(4) z by simp
    moreover have "nonneg_weights env \<longrightarrow> (\<forall>x \<in> set as'. 0 \<le> snd x)"
      using i(5) n(2) by (simp add: nonneg_def)
    ultimately show ?thesis using i(2) e by blast
  qed
  show ?thesis using returns props by blast
qed

theorem calculate_scores_tallies_witness:
  "nonneg_weights example_env
   \<and> label_raises example_env (''2'', JArray [])
   \<and> calculate_scores example_env [(''1'', JString ''A''), (''2'', JArray [])] True = Inl TypeError
   \<and> calculate_scores example_env
        [(''1'', JString ''A''), (''9'', JString ''A''), (''2'', JString ''A'')] True
       = Inr ([(''R'', 1), (''I'', 1), (''A'', 0), (''S'', 0), (''E'', 0), (''C'', 0)],
              [(''Logical Reasoning'', 0), (''Mechanical'', 3), (''Creative'', 0),
               (''Verbal Communication'', 0), (''Numerical'', 1), (''Social/Helping'', 0),
               (''Leadership/Persuasion'', 0), (''Digital/Computer'', 0),
               (''Organizing/Structuring'', 0), (''Writing/Expression'', 0),
               (''Scientific'', 0), (''Spatial/Design'', 1)])
   \<and> (\<exists>riasec aptitude.
        calculate_scores example_env
          [(''1'', JString ''A''), (''9'', JString ''A''), (''2'', JString ''A'')] True
          = Inr (riasec, aptitude)
        \<and> sum_list (map snd riasec) = 2
        \<and> (\<forall>x \<in> set aptitude. 0 \<le> snd x))"
proof -
  let ?a = "[(''1'', JString ''A''), (''9'', JString ''A''), (''2'', JString ''A'')]"
  let ?b = "[(''1'', JString ''A''), (''2'', JArray [])]"
  have w: "nonneg_weights example_env" by code_simp
  have l: "label_raises example_env (''2'', JArray [])" by code_simp
  have c: "length (filter (carries_riasec example_env) ?a) = 2" by code_simp
  have v: "calculate_scores example_env ?a True
       = Inr ([(''R'', 1), (''I'', 1), (''A'', 0), (''S'', 0), (''E'', 0), (''C'', 0)],
              [(''Logical Reasoning'', 0), (''Mechanical'', 3), (''Creative'', 0),
               (''Verbal Communication'', 0), (''Numerical'', 1), (''Social/Helping'', 0),
               (''Leadership/Persuasion'', 0), (''Digital/Computer'', 0),
               (''Organizing/Structuring'', 0), (''Writing/Expression'', 0),
               (''Scientific'', 0), (''Spatial/Design'', 1)])"
    by code_simp
  have r: "calculate_scores example_env ?b True = Inl TypeError" by code_simp
  note t = calculate_scores_tallies[of example_env ?a True]
  have "\<exists>riasec aptitude. calculate_scores example_env ?a True = Inr (riasec, aptitude)
        \<and> sum_list (map snd riasec) = 2 \<and> (\<forall>x \<in> set aptitude. 0 \<le> snd x)"
    using t[THEN conjunct2] v w unfolding c by auto
  then show ?thesis using w l v r by blast
qed

text \<open>
  C5. The claim: an entry of the Answer Record whose question number finds no question, or
  whose label is not among the options of the question found, is skipped and nothing is
  raised. The code does not do that for every label. \<^verbatim>\<open>save_answer\<close> stores whatever
  JSON value the request carries, and on a question of the bank the membership test
  \<^verbatim>\<open>selected not in question.get('options', {})\<close> raises \<^verbatim>\<open>TypeError\<close> for a list or a
  dict, outside any \<^verbatim>\<open>try\<close>: on the Answer Record \<open>{"1": []}\<close> \<^verbatim>\<open>calculate_scores\<close>
  raises, also when another answer stands before the entry, where without the entry it
  returns the tallies.
\<close>

theorem unhashable_label_raises:
  "calculate_scores example_env [(''1'', JArray [])] False = Inl TypeError
   \<and> calculate_scores example_env [(''2'', JString ''A''), (''1'', JObject [])] False
       = Inl TypeError
   \<and> calculate_scores example_env [(''2'', JString ''A'')] False
       = Inr ([(''R'', 0), (''I'', 1), (''A'', 0), (''S'', 0), (''E'', 0), (''C'', 0)],
              map (\<lambda>a. (a, 0)) NEW_APTITUDES)
   \<and> calculate_scores example_env [] False
       = Inr (map (\<lambda>c. (c, 0)) RIASEC, map (\<lambda>a. (a, 0)) NEW_APTITUDES)"
  by code_simp

text \<open>
  C7. One (aptitude key, weight) entry of the chosen option: a legacy key adds the weight to
  every name it maps to and to no other; a key that is not legacy but a current name adds
  the weight to that name and to no other; any other key leaves the tally as it is. None of
  the three can raise. The aptitude tally of an answer that selects an option is that
  rule folded over the option's entries.
\<close>

theorem aptitude_entry_rule:
  "(\<forall>new_keys. map_of OLD_TO_NEW_APT_MAP old_key = Some new_keys \<longrightarrow>
       (\<forall>name. counter_get (apply_aptitude (old_key, score) aptitude_scores) name
          = counter_get aptitude_scores name + (if name \<in> set new_keys then score else 0)))
   \<and> (map_of OLD_TO_NEW_APT_MAP old_key = None \<and> old_key \<in> set NEW_APTITUDES \<longrightarrow>
       (\<forall>name. counter_get (apply_aptitude (old_key, score) aptitude_scores) name
          = counter_get aptitude_scores name + (if name = old_key then score else 0)))
   \<and> (map_of OLD_TO_NEW_APT_MAP old_key = None \<and> old_key \<notin> set NEW_APTITUDES \<longrightarrow>
       apply_aptitude (old_key, score) aptitude_scores = aptitude_scores)
   \<and> (\<forall>question option. resolve_answer env entry = Some (question, option) \<longrightarrow>
       (\<exists>riasec. score_answer env False entry (riasec_scores, aptitude_scores)
          = Inr (riasec, fold apply_aptitude (get_aptitudes option) aptitude_scores)))"
proof (intro conjI allI impI)
  show "counter_get (apply_aptitude (old_key, score) aptitude_scores) name
      = counter_get aptitude_scores name + (if name \<in> set new_keys then score else 0)"
    if "map_of OLD_TO_NEW_APT_MAP old_key = Some new_keys" for new_keys name
    using that fold_counter_add_get[OF OLD_TO_NEW_distinct[OF that]]
    by (simp add: apply_aptitude_def)
  show "counter_get (apply_aptitude (old_key, score) aptitude_scores) name
      = counter_get aptitude_scores name + (if name = old_key then score else 0)"
    if "map_of OLD_TO_NEW_APT_MAP old_key = None \<and> old_key \<in> set NEW_APTITUDES" for name
    using that by (simp add: apply_aptitude_def counter_get_add)
  show "apply_aptitude (old_key, score) aptitude_scores = aptitude_scores"
    if "map_of OLD_TO_NEW_APT_MAP old_key = None \<and> old_key \<notin> set NEW_APTITUDES"
    using that by (simp add: apply_aptitude_def)
  show "\<exists>riasec. score_answer env False entry (riasec_scores, aptitude_scores)
          = Inr (riasec, fold apply_aptitude (get_aptitudes option) aptitude_scores)"
    if "resolve_answer env entry = Some (question, option)" for question option
    using score_answer_hit[OF that, of False riasec_scores aptitude_scores] by simp
qed

theorem aptitude_entry_rule_witness:
  "map_of OLD_TO_NEW_APT_MAP ''Technical'' = Some [''Mechanical'']
   \<and> counter_get (apply_aptitude (''Technical'', 2) [(''Mechanical'', 1), (''Numerical'', 0)])
        ''Mechanical'' = 3
   \<and> map_of OLD_TO_NEW_APT_MAP ''Numerical'' = None \<and> ''Numerical'' \<in> set NEW_APTITUDES
   \<and> counter_get (apply_aptitude (''Numerical'', 4) [(''Mechanical'', 1), (''Numerical'', 0)])
        ''Numerical'' = 4
   \<and> map_of OLD_TO_NEW_APT_MAP ''Juggling'' = None \<and> ''Juggling'' \<notin> set NEW_APTITUDES
   \<and> apply_aptitude (''Juggling'', 5) [(''Mechanical'', 1), (''Numerical'', 0)]
        = [(''Mechanical'', 1), (''Numerical'', 0)]
   \<and> (\<exists>question option riasec.
        resolve_answer example_env (''1'', JString ''A'') = Some (question, option)
        \<and> score_answer example_env False (''1'', JString ''A'') ([], [])
            = Inr (riasec, fold apply_aptitude (get_aptitudes option) []))"
proof -
  let ?as = "[(''Mechanical'', 1), (''Numerical'', 0)] :: tally"
  have a: "map_of OLD_TO_NEW_APT_MAP ''Technical'' = Some [''Mechanical'']" by code_simp
  have b: "map_of OLD_TO_NEW_APT_MAP ''Numerical'' = None \<and> ''Numerical'' \<in> set NEW_APTITUDES"
    by code_simp
  have c: "map_of OLD_TO_NEW_APT_MAP ''Juggling'' = None \<and> ''Juggling'' \<notin> set NEW_APTITUDES"
    by code_simp
  have g: "counter_get ?as ''Mechanical'' = 1" "counter_get ?as ''Numerical'' = 0" by code_simp+
  obtain question option where d: "resolve_answer example_env (''1'', JString ''A'') = Some (question, option)"
    by (cases "resolve_answer example_env (''1'', JString ''A'')") (code_simp, auto)
  have 1: "counter_get (apply_aptitude (''Technical'', 2) ?as) ''Mechanical'' = 3"
    using aptitude_entry_rule[of "''Technical''" 2 ?as example_env "(''1'', JString ''A'')" "[]"] a g by simp
  have 2: "counter_get (apply_aptitude (''Numerical'', 4) ?as) ''Numerical'' = 4"
    using aptitude_entry_rule[of "''Numerical''" 4 ?as example_env "(''1'', JString ''A'')" "[]"] b g by simp
  have 3: "apply_aptitude (''Juggling'', 5) ?as = ?as"
    using aptitude_entry_rule[of "''Juggling''" 5 ?as example_env "(''1'', JString ''A'')" "[]"] c by simp
  have 4: "\<exists>riasec. score_answer example_env False (''1'', JString ''A'') ([], [])
            = Inr (riasec, fold apply_aptitude (get_aptitudes option) [])"
    using aptitude_entry_rule[of "''Juggling''" 5 "[]" example_env "(''1'', JString ''A'')" "[]"] d by blast
  show ?thesis using a b c d 1 2 3 4 by blast
qed

text \<open>
  C6. \<^verbatim>\<open>get_questions_for_pairs\<close> returns, for the pairs not in \<open>already_asked\<close> and in
  the order the pairs are visited, the first two questions of the tie-breaker bank whose
  \<open>pair\<close> field is that pair: at most 2 for a pair, none for a pair without questions, and
  no question whose pair is in \<open>already_asked\<close>.
\<close>

theorem get_questions_for_pairs_spec:
  "get_questions_for_pairs env pairs already_asked
     = concat (map (pair_questions env) (filter (\<lambda>p. p \<notin> already_asked) pairs))
   \<and> (\<forall>q \<in> set (get_questions_for_pairs env pairs already_asked).
        \<forall>p \<in> already_asked. q_pair q \<noteq> Some p)
   \<and> (\<forall>p. length (pair_questions env p) \<le> 2
        \<and> pair_questions env p = take 2 (filter (\<lambda>q. q_pair q = Some p) (TIE_BREAKER_QUESTIONS env))
        \<and> (\<forall>q \<in> set (pair_questions env p). q_pair q = Some p)
        \<and> ((\<forall>q \<in> set (TIE_BREAKER_QUESTIONS env). q_pair q \<noteq> Some p) \<longrightarrow> pair_questions env p = []))"
proof -
  have eq: "get_questions_for_pairs env pairs already_asked
     = concat (map (pair_questions env) (filter (\<lambda>p. p \<notin> already_asked) pairs))"
    unfolding get_questions_for_pairs_def get_questions_fold by simp
  have "q_pair q \<noteq> Some p"
    if "q \<in> set (get_questions_for_pairs env pairs already_asked)" "p \<in> already_asked" for q p
  proof -
    from that(1) obtain p' where "p' \<notin> already_asked" "q \<in> set (pair_questions env p')"
      unfolding eq by auto
    then show ?thesis using that(2) pair_questions_pair[of q env p'] by auto
  qed
  moreover have "length (pair_questions env p) \<le> 2" for p by (simp add: pair_questions_def)
  moreover have "pair_questions env p = []"
    if "\<forall>q \<in> set (TIE_BREAKER_QUESTIONS env). q_pair q \<noteq> Some p" for p
    using that by (simp add: pair_questions_def filter_empty_conv)
  moreover have "pair_questions env p
      = take 2 (filter (\<lambda>q. q_pair q = Some p) (TIE_BREAKER_QUESTIONS env))" for p
    by (simp add: pair_questions_def)
  moreover have "\<forall>q \<in> set (pair_questions env p). q_pair q = Some p" for p
    using pair_questions_pair by blast
  ultimately show ?thesis using eq by blast
qed

theorem get_questions_for_pairs_spec_witness:
  "''A-S'' \<in> {''A-S''}
   \<and> map q_number (get_questions_for_pairs example_env [''I-R'', ''A-S'', ''C-E''] {''A-S''}) = [2, 4]
   \<and> Some ''A-S'' \<notin> q_pair ` set (get_questions_for_pairs example_env [''I-R'', ''A-S'', ''C-E''] {''A-S''})
   \<and> Some ''C-E'' \<notin> q_pair ` set (TIE_BREAKER_QUESTIONS example_env)
   \<and> pair_questions example_env ''C-E'' = []"
proof -
  let ?r = "get_questions_for_pairs example_env [''I-R'', ''A-S'', ''C-E''] {''A-S''}"
  note spec = get_questions_for_pairs_spec[of example_env "[''I-R'', ''A-S'', ''C-E'']" "{''A-S''}"]
  have f: "filter (\<lambda>p. p \<notin> {''A-S''}) [''I-R'', ''A-S'', ''C-E''] = [''I-R'', ''C-E'']"
    by simp
  have n: "map q_number (concat (map (pair_questions example_env) [''I-R'', ''C-E''])) = [2, 4]"
    by code_simp
  have e: "\<forall>q \<in> set (TIE_BREAKER_QUESTIONS example_env). q_pair q \<noteq> Some ''C-E''" by code_simp
  have "?r = concat (map (pair_questions example_env) [''I-R'', ''C-E''])"
    using spec[THEN conjunct1] by (simp only: f)
  then have 1: "map q_number ?r = [2, 4]" by (simp only: n)
  have "\<forall>q \<in> set ?r. q_pair q \<noteq> Some ''A-S''"
    using spec[THEN conjunct2, THEN conjunct1] by blast
  then have 2: "Some ''A-S'' \<notin> q_pair ` set ?r" by force
  have 3: "pair_questions example_env ''C-E'' = []"
    using spec[THEN conjunct2, THEN conjunct2] e by blast
  have 4: "Some ''C-E'' \<notin> q_pair ` set (TIE_BREAKER_QUESTIONS example_env)" using e by force
  show ?thesis using 1 2 3 4 by blast
qed

section \<open>The scenarios of the specification\<close>

text \<open>
  C8. The tally \<open>{R:5, I:5, A:4, S:2, E:1, C:0}\<close> with \<open>delta = 1\<close>: the only pair is
  \<open>I-R\<close>, from the tie of R and I; the gap of 1 between I and A is not below delta, and
  nothing below the third rank is compared. \<^verbatim>\<open>resolve_riasec_code\<close> gives \<open>IRA\<close> on the
  same tally.
\<close>

theorem scenario_R5_I5_A4:
  "identify_tie_pairs [(''R'', 5), (''I'', 5), (''A'', 4), (''S'', 2), (''E'', 1), (''C'', 0)] 1
     = {''I-R''}
   \<and> resolve_riasec_code [(''R'', 5), (''I'', 5), (''A'', 4), (''S'', 2), (''E'', 1), (''C'', 0)]
     = ''IRA''"
  by (simp add: identify_tie_pairs_def sorted_by_score_def fmt_pair_def
      add_third_place_pairs_def resolve_riasec_code_def Let_def)

text \<open>
  C9. The tally with all six categories at 0 and \<open>delta = 1\<close>: all six share the third
  score, so the result is not empty and holds each of the fifteen letter-sorted pairs of
  two categories.
\<close>

theorem scenario_all_zero:
  "identify_tie_pairs [(''R'', 0), (''I'', 0), (''A'', 0), (''S'', 0), (''E'', 0), (''C'', 0)] 1
     = {''A-C'', ''A-E'', ''A-I'', ''A-R'', ''A-S'', ''C-E'', ''C-I'', ''C-R'', ''C-S'',
        ''E-I'', ''E-R'', ''E-S'', ''I-R'', ''I-S'', ''R-S''}
   \<and> identify_tie_pairs [(''R'', 0), (''I'', 0), (''A'', 0), (''S'', 0), (''E'', 0), (''C'', 0)] 1
     \<noteq> {}"
  by code_simp

end
